theory Spec2Isabelle
  imports Main "HOL-Library.AList"
begin

section \<open>Python values used by the plugin\<close>

text \<open>
  Python strings are modelled as \<^typ>\<open>string\<close>.  A \<^verbatim>\<open>dict\<close> with string keys is an
  association list in insertion order: \<^const>\<open>AList.update\<close> overwrites the value of a key
  that is present and appends a key that is absent, \<^const>\<open>map_of\<close> is the lookup, and
  \<open>dict_in\<close> is Python's \<^verbatim>\<open>key in d\<close>.
\<close>

type_synonym 'a dict = "(string \<times> 'a) list"

definition dict_in :: "string \<Rightarrow> 'a dict \<Rightarrow> bool" where
  "dict_in k d = (k \<in> set (map fst d))"

definition keys :: "'a dict \<Rightarrow> string list" where
  "keys d = map fst d"

text \<open>\<^verbatim>\<open>str(i)\<close> for a non-negative integer: its decimal digits.\<close>

definition digit_char :: "nat \<Rightarrow> char" where
  "digit_char d = ''0123456789'' ! d"

function str_nat :: "nat \<Rightarrow> string" where
  "str_nat n = (if n < 10 then [digit_char n] else str_nat (n div 10) @ [digit_char (n mod 10)])"
  by pat_completeness auto
termination
  by (relation "measure id") auto

declare str_nat.simps [simp del]

text \<open>\<^verbatim>\<open>p.rfind(c)\<close>: the index of the last occurrence of a character, or \<open>-1\<close>.\<close>

definition rfind :: "string \<Rightarrow> char \<Rightarrow> int" where
  "rfind p c =
     (if c \<in> set p then int (length p) - 1 - int (length (takeWhile (\<lambda>x. x \<noteq> c) (rev p)))
      else - 1)"

text \<open>
  \<^verbatim>\<open>os.path.splitext\<close> (the POSIX instance of \<^verbatim>\<open>genericpath._splitext\<close>, separator
  \<^verbatim>\<open>/\<close>): the extension starts at the last dot, provided that dot lies in the last
  path component and some character other than a dot stands before it in that component
  (the library's \<^verbatim>\<open>while\<close> loop skips leading dots).
\<close>

definition splitext :: "string \<Rightarrow> string \<times> string" where
  "splitext p =
     (let sepIndex = rfind p CHR ''/'';
          dotIndex = rfind p CHR ''.''
      in if dotIndex > sepIndex \<and>
            list_ex (\<lambda>c. c \<noteq> CHR ''.'')
              (take (nat (dotIndex - (sepIndex + 1))) (drop (nat (sepIndex + 1)) p))
         then (take (nat dotIndex) p, drop (nat dotIndex) p)
         else (p, []))"

text \<open>\<^verbatim>\<open>sep.join(xs)\<close> and \<^verbatim>\<open>s.split(c)\<close> for a one-character separator.\<close>

fun join :: "string \<Rightarrow> string list \<Rightarrow> string" where
  "join sep [] = []"
| "join sep [x] = x"
| "join sep (x # y # ys) = x @ sep @ join sep (y # ys)"

fun split_char :: "char \<Rightarrow> string \<Rightarrow> string list" where
  "split_char c [] = [[]]"
| "split_char c (x # xs) =
     (if x = c then [] # split_char c xs
      else (case split_char c xs of
              [] \<Rightarrow> [[x]]
            | w # ws \<Rightarrow> (x # w) # ws))"

text \<open>
  A character of a model string stands for a code point: the characters below 128 are
  those of ASCII, the others stand for code points outside ASCII (those of Latin-1 for
  themselves).  Which code points are letters or digits, and what \<^verbatim>\<open>str.lower\<close> makes of a
  string, is decided by the Unicode tables of the interpreter, which are not part of the
  source: the answers of \<^verbatim>\<open>str.isalnum\<close>, \<^verbatim>\<open>str.isalpha\<close> and \<^verbatim>\<open>str.lower\<close> are a parameter
  of the model.  \<^verbatim>\<open>str.lower\<close> is a function of the whole string, since the lower case of a
  character may be several characters and may depend on its neighbours.
\<close>

record unicode =
  str_isalnum :: "char \<Rightarrow> bool"
  str_isalpha :: "char \<Rightarrow> bool"
  str_lower :: "string \<Rightarrow> string"

text \<open>
  The ASCII letters and digits (the class \<^verbatim>\<open>[A-Za-z0-9]\<close> of the regular expressions in the
  source), the characters of ASCII, and the case conversions of ASCII text.
\<close>

definition ascii_lowercase :: string where
  "ascii_lowercase = ''abcdefghijklmnopqrstuvwxyz''"

definition ascii_uppercase :: string where
  "ascii_uppercase = ''ABCDEFGHIJKLMNOPQRSTUVWXYZ''"

definition digits :: string where
  "digits = ''0123456789''"

definition ascii_letter :: "char \<Rightarrow> bool" where
  "ascii_letter c = (c \<in> set (ascii_lowercase @ ascii_uppercase))"

definition ascii_alnum :: "char \<Rightarrow> bool" where
  "ascii_alnum c = (ascii_letter c \<or> c \<in> set digits)"

definition ascii_char :: "char \<Rightarrow> bool" where
  "ascii_char c = ((of_char c :: nat) < 128)"

definition ascii_lower_char :: "char \<Rightarrow> char" where
  "ascii_lower_char c =
     (case map_of (zip ascii_uppercase ascii_lowercase) c of None \<Rightarrow> c | Some l \<Rightarrow> l)"

definition ascii_lower :: "string \<Rightarrow> string" where
  "ascii_lower s = map ascii_lower_char s"

definition ascii_upper_char :: "char \<Rightarrow> char" where
  "ascii_upper_char c =
     (case map_of (zip ascii_lowercase ascii_uppercase) c of None \<Rightarrow> c | Some u \<Rightarrow> u)"

definition ascii_upper :: "string \<Rightarrow> string" where
  "ascii_upper s = map ascii_upper_char s"

text \<open>\<^verbatim>\<open>s.strip(cs)\<close>, \<^verbatim>\<open>s.lstrip(cs)\<close>: drop the characters of \<open>cs\<close> at the ends.\<close>

definition lstrip :: "string \<Rightarrow> string \<Rightarrow> string" where
  "lstrip cs s = dropWhile (\<lambda>c. c \<in> set cs) s"

definition strip :: "string \<Rightarrow> string \<Rightarrow> string" where
  "strip cs s = rev (dropWhile (\<lambda>c. c \<in> set cs) (rev (dropWhile (\<lambda>c. c \<in> set cs) s)))"

text \<open>\<^verbatim>\<open>a or b\<close> on an optional string: \<^verbatim>\<open>None\<close> and the empty string are false.\<close>

definition py_or :: "string option \<Rightarrow> string \<Rightarrow> string" where
  "py_or a b = (case a of None \<Rightarrow> b | Some v \<Rightarrow> if v = [] then b else v)"

text \<open>A raised exception: its class and its message (\<^verbatim>\<open>str(e)\<close>).\<close>

datatype exn = Exn (exn_class: string) (exn_msg: string)

text \<open>\<^verbatim>\<open>os.path.basename\<close> (POSIX): what follows the last \<^verbatim>\<open>/\<close>.\<close>

definition basename :: "string \<Rightarrow> string" where
  "basename p = drop (nat (rfind p CHR ''/'' + 1)) p"

section \<open>Paths (\<^verbatim>\<open>pathlib\<close>, POSIX flavour)\<close>

text \<open>
  A path is its sequence of components and whether it is anchored at the root.
  \<open>name\<close>, \<open>suffix\<close>, \<open>stem\<close>, \<open>parent\<close>, \<open>relative_to\<close> and \<open>str\<close> follow \<^verbatim>\<open>PurePath\<close>.
\<close>

datatype path = Path (is_absolute: bool) (parts: "string list")

definition parse_path :: "string \<Rightarrow> path" where
  "parse_path s =
     Path (s \<noteq> [] \<and> hd s = CHR ''/'')
          (filter (\<lambda>x. x \<noteq> [] \<and> x \<noteq> ''.'') (split_char CHR ''/'' s))"

definition path_name :: "path \<Rightarrow> string" where
  "path_name p = (if parts p = [] then [] else last (parts p))"

definition path_suffix :: "path \<Rightarrow> string" where
  "path_suffix p =
     (let name = path_name p; i = rfind name CHR ''.''
      in if 0 < i \<and> i < int (length name) - 1 then drop (nat i) name else [])"

definition path_stem :: "path \<Rightarrow> string" where
  "path_stem p =
     (let name = path_name p; i = rfind name CHR ''.''
      in if 0 < i \<and> i < int (length name) - 1 then take (nat i) name else name)"

definition path_parent :: "path \<Rightarrow> path" where
  "path_parent p = Path (is_absolute p) (butlast (parts p))"

definition path_str :: "path \<Rightarrow> string" where
  "path_str p =
     (if is_absolute p then ''/'' @ join ''/'' (parts p)
      else if parts p = [] then ''.'' else join ''/'' (parts p))"

definition relative_to :: "path \<Rightarrow> path \<Rightarrow> exn + path" where
  "relative_to p other =
     (if is_absolute p = is_absolute other \<and>
         take (length (parts other)) (parts p) = parts other
      then Inr (Path False (drop (length (parts other)) (parts p)))
      else Inl (Exn ''ValueError''
             ([CHR 0x27] @ path_str p @ [CHR 0x27] @ '' is not in the subpath of '' @
              [CHR 0x27] @ path_str other @ [CHR 0x27])))"

section \<open>Name de-duplication (\<^verbatim>\<open>_dedup_name\<close> in \<^verbatim>\<open>launcher.py\<close>)\<close>

text \<open>The candidate \<^verbatim>\<open>f"{base}-{i}{ext}"\<close>.\<close>

definition candidate :: "string \<Rightarrow> string \<Rightarrow> nat \<Rightarrow> string" where
  "candidate base ext i = base @ ''-'' @ str_nat i @ ext"

lemma digit_char_inj: "a < 10 \<Longrightarrow> b < 10 \<Longrightarrow> digit_char a = digit_char b \<Longrightarrow> a = b"
proof -
  assume a: "a < 10" and b: "b < 10" and e: "digit_char a = digit_char b"
  have d: "distinct ''0123456789''" by simp
  have l: "length ''0123456789'' = 10" by simp
  from a b e d l show "a = b"
    unfolding digit_char_def by (metis nth_eq_iff_index_eq)
qed

lemma str_nat_nonempty: "str_nat n \<noteq> []"
  by (subst str_nat.simps) simp

lemma str_nat_last: "last (str_nat n) = digit_char (n mod 10)"
  by (subst str_nat.simps) simp

lemma str_nat_butlast: "butlast (str_nat n) = (if n < 10 then [] else str_nat (n div 10))"
  by (subst str_nat.simps) simp

lemma str_nat_inj: "str_nat n = str_nat m \<Longrightarrow> n = m"
proof (induction n arbitrary: m rule: less_induct)
  case (less n)
  from less.prems have l: "digit_char (n mod 10) = digit_char (m mod 10)"
    by (metis str_nat_last)
  then have md: "n mod 10 = m mod 10"
    by (intro digit_char_inj) simp_all
  from less.prems have bl: "butlast (str_nat n) = butlast (str_nat m)" by simp
  show ?case
  proof (cases "n < 10")
    case True
    with bl have "m < 10"
      by (auto simp: str_nat_butlast str_nat_nonempty split: if_splits dest: sym)
    with True md show ?thesis by simp
  next
    case False
    with bl have m: "\<not> m < 10" and e: "str_nat (n div 10) = str_nat (m div 10)"
      by (auto simp: str_nat_butlast str_nat_nonempty split: if_splits)
    from False have "n div 10 < n" by simp
    with less.IH e have "n div 10 = m div 10" by blast
    with md show ?thesis by (metis div_mult_mod_eq)
  qed
qed

lemma candidate_inj: "candidate base ext i = candidate base ext j \<Longrightarrow> i = j"
  by (simp add: candidate_def str_nat_inj)

lemma finite_taken: "finite {j. dict_in (candidate base ext j) used}"
proof -
  have "inj (candidate base ext)" by (auto simp: inj_def dest: candidate_inj)
  then have "finite (candidate base ext -` set (map fst used))"
    by (intro finite_vimageI) simp_all
  then show ?thesis by (simp add: vimage_def dict_in_def)
qed

function dedup_loop :: "string \<Rightarrow> string \<Rightarrow> 'a dict \<Rightarrow> nat \<Rightarrow> string" where
  "dedup_loop base ext used i =
     (if dict_in (candidate base ext i) used then dedup_loop base ext used (i + 1)
      else candidate base ext i)"
  by pat_completeness auto
termination
proof (relation "measure (\<lambda>(base, ext, used, i). card {j. i \<le> j \<and> dict_in (candidate base ext j) used})")
  show "wf (measure (\<lambda>(base, ext, used :: 'a dict, i). card {j. i \<le> j \<and> dict_in (candidate base ext j) used}))"
    by simp
next
  fix base ext and used :: "'a dict" and i
  assume h: "dict_in (candidate base ext i) used"
  have f: "finite {j. i \<le> j \<and> dict_in (candidate base ext j) used}"
    using finite_taken [of base ext used] by (rule rev_finite_subset) auto
  have "{j. i + 1 \<le> j \<and> dict_in (candidate base ext j) used}
        \<subset> {j. i \<le> j \<and> dict_in (candidate base ext j) used}"
  proof
    show "{j. i + 1 \<le> j \<and> dict_in (candidate base ext j) used}
        \<subseteq> {j. i \<le> j \<and> dict_in (candidate base ext j) used}"
      by auto
    have "i \<in> {j. i \<le> j \<and> dict_in (candidate base ext j) used}" using h by simp
    moreover have "i \<notin> {j. i + 1 \<le> j \<and> dict_in (candidate base ext j) used}" by simp
    ultimately show "{j. i + 1 \<le> j \<and> dict_in (candidate base ext j) used}
        \<noteq> {j. i \<le> j \<and> dict_in (candidate base ext j) used}"
      by blast
  qed
  with f have "card {j. i + 1 \<le> j \<and> dict_in (candidate base ext j) used}
        < card {j. i \<le> j \<and> dict_in (candidate base ext j) used}"
    by (rule psubset_card_mono)
  then show "((base, ext, used, i + 1), (base, ext, used, i))
        \<in> measure (\<lambda>(base, ext, used, i). card {j. i \<le> j \<and> dict_in (candidate base ext j) used})"
    by simp
qed

declare dedup_loop.simps [simp del]

definition dedup_name :: "string \<Rightarrow> 'a dict \<Rightarrow> string" where
  "dedup_name name used =
     (if dict_in name used then
        (case splitext name of (base, ext) \<Rightarrow> dedup_loop base ext used 2)
      else name)"


section \<open>XML documents\<close>

text \<open>
  Documents that are built once (a topic, the map of a single conversion) are trees:
  tag, attributes, text and children of an \<^verbatim>\<open>lxml\<close> element.
\<close>

datatype xml = Element (tag: string) (attrib: "string dict") (etext: "string option")
  (children: "xml list")

text \<open>The descendants of an element in document order.\<close>

fun descendants :: "xml \<Rightarrow> xml list" where
  "descendants (Element t a x cs) = concat (map (\<lambda>c. c # descendants c) cs)"

text \<open>\<^verbatim>\<open>m.find('.//topicref[@href]')\<close>: the first descendant \<^verbatim>\<open>topicref\<close> that has an \<^verbatim>\<open>href\<close>.\<close>

definition find_topicref :: "xml \<Rightarrow> xml option" where
  "find_topicref m =
     List.find (\<lambda>e. tag e = ''topicref'' \<and> dict_in ''href'' (attrib e)) (descendants m)"

text \<open>\<^verbatim>\<open>parent.remove(parent.find(t))\<close> when the child exists.\<close>

fun remove_first :: "string \<Rightarrow> xml list \<Rightarrow> xml list" where
  "remove_first t [] = []"
| "remove_first t (c # cs) = (if tag c = t then cs else c # remove_first t cs)"

text \<open>\<^verbatim>\<open>title_el = topic_el.find('title'); title_el.text = s\<close> when the child exists.\<close>

fun set_first_text :: "string \<Rightarrow> string \<Rightarrow> xml list \<Rightarrow> xml list" where
  "set_first_text t s [] = []"
| "set_first_text t s (c # cs) =
     (if tag c = t then Element (tag c) (attrib c) (Some s) (children c) # cs
      else c # set_first_text t s cs)"

section \<open>The conversion context (\<^verbatim>\<open>DitaContext\<close>)\<close>

text \<open>
  \<open>video_info\<close> is the metadata dictionary of \<^verbatim>\<open>VideoProcessor.extract_metadata\<close>: the two
  keys the builder always reads, and the remaining keys with their values printed.
  \<open>plugin_data\<close> is represented by the two entries the plugin uses: \<^verbatim>\<open>_source_plugin\<close> and
  \<^verbatim>\<open>['orlando-video-plugin']['video_info_map']\<close> (an absent map is the empty map).
  The type parameter is the representation of the map document: a tree for one
  conversion, the node store of section \<open>The combined map\<close> for the merged project.
\<close>

record video_info =
  filename :: string
  extension :: string
  props :: "string dict"

datatype pyval = Str string | Info video_info

record 'm dita_context =
  topics :: "xml dict"
  images :: "string dict"
  videos :: "string dict"
  ditamap_root :: "'m option"
  metadata :: "pyval dict"
  source_plugin :: "string option"
  video_info_map :: "(string dict) dict"

definition DitaContext :: "'m dita_context" where
  "DitaContext =
     \<lparr>topics = [], images = [], videos = [], ditamap_root = None, metadata = [],
      source_plugin = None, video_info_map = []\<rparr>"

text \<open>\<^verbatim>\<open>metadata.get(k)\<close> for a conversion setting that is a string.\<close>

definition md_get :: "pyval dict \<Rightarrow> string \<Rightarrow> string option" where
  "md_get md k = (case map_of md k of Some (Str v) \<Rightarrow> Some v | _ \<Rightarrow> None)"

section \<open>Topic identifiers (\<^verbatim>\<open>VideoDitaBuilder._generate_topic_id\<close>)\<close>

text \<open>The \<^verbatim>\<open>for\<close> loop: keep alphanumerics, turn separators into hyphens, drop the rest.\<close>

fun clean_chars :: "unicode \<Rightarrow> string \<Rightarrow> string" where
  "clean_chars u [] = []"
| "clean_chars u (c # cs) =
     (if str_isalnum u c then c # clean_chars u cs
      else if c \<in> set '' -_.'' then CHR ''-'' # clean_chars u cs
      else clean_chars u cs)"

text \<open>\<^verbatim>\<open>"--" in s\<close> and \<^verbatim>\<open>s.replace("--", "-")\<close> (left to right, without overlap).\<close>

fun has_dd :: "string \<Rightarrow> bool" where
  "has_dd (a # b # xs) = ((a = CHR ''-'' \<and> b = CHR ''-'') \<or> has_dd (b # xs))"
| "has_dd xs = False"

fun replace_dd :: "string \<Rightarrow> string" where
  "replace_dd (a # b # xs) =
     (if a = CHR ''-'' \<and> b = CHR ''-'' then CHR ''-'' # replace_dd xs
      else a # replace_dd (b # xs))"
| "replace_dd xs = xs"

lemma replace_dd_length_le: "length (replace_dd s) \<le> length s"
  by (induction s rule: replace_dd.induct) auto

lemma replace_dd_shorter: "has_dd s \<Longrightarrow> length (replace_dd s) < length s"
proof (induction s rule: replace_dd.induct)
  case (1 a b xs)
  then show ?case
    using replace_dd_length_le [of xs] by (auto simp: less_Suc_eq_le)
qed simp_all

function collapse_hyphens :: "string \<Rightarrow> string" where
  "collapse_hyphens s = (if has_dd s then collapse_hyphens (replace_dd s) else s)"
  by pat_completeness auto
termination
  by (relation "measure length") (auto simp: replace_dd_shorter)

declare collapse_hyphens.simps [simp del]

text \<open>
  The candidate before the first character is inspected: the lower-cased stem of the file
  name, cleaned, with runs of hyphens collapsed.
\<close>

definition topic_candidate :: "unicode \<Rightarrow> string \<Rightarrow> string" where
  "topic_candidate u fname =
     (let name_without_ext = path_stem (parse_path fname)
      in collapse_hyphens (clean_chars u (str_lower u name_without_ext)))"

definition generate_topic_id :: "unicode \<Rightarrow> string \<Rightarrow> exn + string" where
  "generate_topic_id u fname =
     (let topic_id = topic_candidate u fname
      in case topic_id of
           [] \<Rightarrow> Inl (Exn ''IndexError'' ''string index out of range'')
         | c # _ \<Rightarrow>
             (let topic_id1 = (if str_isalpha u c then topic_id else ''video-'' @ topic_id);
                  topic_id2 = (if length topic_id1 > 50 then take 50 topic_id1 else topic_id1)
              in Inr (strip ''-'' topic_id2)))"

section \<open>The topic builder (\<^verbatim>\<open>VideoDitaBuilder\<close>)\<close>

text \<open>
  The plugin configuration, as far as the builder reads it:
  \<^verbatim>\<open>config['dita_integration']['preserve_original_filenames']\<close> (default \<^verbatim>\<open>True\<close>).
\<close>

record config =
  preserve_original_filenames :: bool

definition get_video_media_filename :: "unicode \<Rightarrow> config \<Rightarrow> string \<Rightarrow> exn + string" where
  "get_video_media_filename u cfg original_filename =
     (if preserve_original_filenames cfg then Inr original_filename
      else (case generate_topic_id u original_filename of
              Inl e \<Rightarrow> Inl e
            | Inr tid \<Rightarrow> Inr (tid @ path_suffix (parse_path original_filename))))"

definition get_video_mime_type :: "unicode \<Rightarrow> string \<Rightarrow> string" where
  "get_video_mime_type u ext =
     (case map_of
        [(''mp4'', ''video/mp4''), (''avi'', ''video/x-msvideo''), (''mov'', ''video/quicktime''),
         (''wmv'', ''video/x-ms-wmv''), (''webm'', ''video/webm''), (''mkv'', ''video/x-matroska'')]
        (lstrip ''.'' (str_lower u ext)) of
        Some m \<Rightarrow> m
      | None \<Rightarrow> ''video/unknown'')"

text \<open>
  \<^verbatim>\<open>_add_video_element\<close>: the \<^verbatim>\<open>object\<close> element whose \<^verbatim>\<open>data\<close> attribute names the media
  file, with its \<^verbatim>\<open>param\<close> child.
\<close>

definition add_video_element :: "unicode \<Rightarrow> config \<Rightarrow> video_info \<Rightarrow> exn + xml" where
  "add_video_element u cfg vi =
     (case get_video_media_filename u cfg (filename vi) of
        Inl e \<Rightarrow> Inl e
      | Inr video_filename \<Rightarrow>
          Inr (Element ''object''
                 [(''data'', ''../media/'' @ video_filename), (''outputclass'', ''video''),
                  (''type'', get_video_mime_type u (extension vi))]
                 None
                 [Element ''param'' [(''name'', ''controls''), (''value'', ''true'')] None []]))"

text \<open>\<^verbatim>\<open>video_info.get(k, d)\<close> on the printed remaining keys.\<close>

definition info_get :: "video_info \<Rightarrow> string \<Rightarrow> string \<Rightarrow> string" where
  "info_get vi k d = (case map_of (props vi) k of Some v \<Rightarrow> v | None \<Rightarrow> d)"

text \<open>
  \<^verbatim>\<open>build_video_topic\<close>: a \<^verbatim>\<open>concept\<close> with a title, a short description that is removed
  again once the body has been appended, and the body holding the video element.
\<close>

definition build_video_topic ::
  "unicode \<Rightarrow> pyval dict \<Rightarrow> config \<Rightarrow> string \<Rightarrow> video_info \<Rightarrow> exn + xml" where
  "build_video_topic u md cfg topic_id vi =
     (let title_text = py_or (md_get md ''video_title'') (path_stem (parse_path (filename vi)));
          title = Element ''title'' [] (Some title_text) [];
          shortdesc = Element ''shortdesc'' []
            (Some (''Video content: '' @ info_get vi ''duration_formatted'' ''Unknown duration'' @ '', '' @
                   info_get vi ''width'' ''0'' @ [CHR 0xD7] @ info_get vi ''height'' ''0'' @ '', '' @
                   info_get vi ''file_size_mb'' ''0'' @ ''MB'')) []
      in case add_video_element u cfg vi of
           Inl e \<Rightarrow> Inl e
         | Inr obj \<Rightarrow>
             Inr (Element ''concept'' [(''id'', topic_id)] None
                    (remove_first ''shortdesc''
                       [title, shortdesc, Element ''conbody'' [] None [obj]])))"

text \<open>
  \<^verbatim>\<open>_normalize_manual_reference\<close>: \<^verbatim>\<open>strip()\<close>, every run of characters outside
  \<^verbatim>\<open>[A-Za-z0-9]\<close> replaced by one hyphen, runs of hyphens squeezed, hyphens stripped at the
  ends, upper case (of a string that by then holds ASCII letters, digits and hyphens only);
  \<^verbatim>\<open>VIDEO-LIBRARY\<close> when nothing is left.  \<open>whitespace\<close> is what \<^verbatim>\<open>strip()\<close> removes among
  the first 256 code points; a character that \<^verbatim>\<open>strip()\<close> would remove and this list does not
  have becomes a hyphen at an end of the string and is removed there all the same.
\<close>

definition whitespace :: string where
  "whitespace = [CHR 0x09, CHR 0x0A, CHR 0x0B, CHR 0x0C, CHR 0x0D, CHR 0x1C, CHR 0x1D, CHR 0x1E,
                 CHR 0x1F, CHR 0x20, CHR 0x85, CHR 0xA0]"

function sub_non_alnum :: "string \<Rightarrow> string" where
  "sub_non_alnum [] = []"
| "sub_non_alnum (c # cs) =
     (if ascii_alnum c then c # sub_non_alnum cs
      else CHR ''-'' # sub_non_alnum (dropWhile (\<lambda>x. \<not> ascii_alnum x) cs))"
  by pat_completeness auto
termination
  by (relation "measure length") (auto simp: less_Suc_eq_le length_dropWhile_le)

fun squeeze_hyphens :: "string \<Rightarrow> string" where
  "squeeze_hyphens (a # b # xs) =
     (if a = CHR ''-'' \<and> b = CHR ''-'' then squeeze_hyphens (b # xs)
      else a # squeeze_hyphens (b # xs))"
| "squeeze_hyphens xs = xs"

definition normalize_manual_reference :: "string \<Rightarrow> string" where
  "normalize_manual_reference title =
     (if title = [] then ''VIDEO-LIBRARY''
      else (let norm = ascii_upper (strip ''-'' (squeeze_hyphens (sub_non_alnum (strip whitespace title))))
            in if norm = [] then ''VIDEO-LIBRARY'' else norm))"

text \<open>
  \<^verbatim>\<open>_create_ditamap\<close>.  \<open>today\<close> is the current UTC date (\<^verbatim>\<open>_current_date_ymd\<close>).  The
  attribute \<^verbatim>\<open>xml:lang\<close> is not part of the result: \<^verbatim>\<open>lxml\<close> refuses the name and the
  source passes over the error.
\<close>

definition create_ditamap :: "pyval dict \<Rightarrow> string \<Rightarrow> string \<Rightarrow> video_info \<Rightarrow> xml" where
  "create_ditamap md today topic_filename vi =
     (let title_text = py_or (md_get md ''manual_title'')
                         (py_or (md_get md ''video_title'') (path_stem (parse_path (filename vi))));
          manual_ref = normalize_manual_reference title_text
      in Element ''map'' [] None
           [Element ''title'' [] (Some title_text) [],
            Element ''topicmeta'' [] None
              [Element ''othermeta'' [(''name'', ''manual_reference''), (''content'', manual_ref)] None [],
               Element ''critdates'' [] None
                 [Element ''created'' [(''date'', today)] None [],
                  Element ''revised'' [(''modified'', py_or (md_get md ''revision_date'') today)] None []]],
            Element ''topicref''
              [(''href'', ''topics/'' @ topic_filename), (''format'', ''dita''), (''type'', ''concept'')] None
              [Element ''topicmeta'' [] None [Element ''navtitle'' [] (Some title_text) []]]])"

text \<open>
  What the conversion reads from outside the program: the file system (which paths exist,
  as a regular file or as a directory), the host's \<^verbatim>\<open>validate_file_exists\<close>, the OpenCV
  probes behind \<^verbatim>\<open>validate_format\<close> and \<^verbatim>\<open>extract_metadata\<close> (the printed keys other than
  \<^verbatim>\<open>filename\<close>, \<^verbatim>\<open>extension\<close> and \<^verbatim>\<open>format\<close>, or the exception raised), the bytes of a file,
  the clock, and the Unicode tables.
\<close>

datatype fs_kind = RegularFile | Directory

record env =
  fs_entry :: "path \<Rightarrow> fs_kind option"
  validate_file_exists :: "path \<Rightarrow> exn option"
  validate_format :: "path \<Rightarrow> bool"
  probe_metadata :: "path \<Rightarrow> exn + string dict"
  read_bytes :: "path \<Rightarrow> exn + string"
  today_utc :: string
  now_iso :: string
  tables :: unicode

text \<open>\<^verbatim>\<open>Path.exists()\<close>: the path names an entry of the file system, of whatever kind.\<close>

definition path_exists :: "env \<Rightarrow> path \<Rightarrow> bool" where
  "path_exists ev p = (fs_entry ev p \<noteq> None)"

text \<open>The two \<^verbatim>\<open>DOCTYPE\<close> hints (\<open>CHR 0x22\<close> is the double quote).\<close>

definition doctype_map :: string where
  "doctype_map =
     ''<!DOCTYPE map PUBLIC '' @ [CHR 0x22] @ ''-//OASIS//DTD DITA Map//EN'' @ [CHR 0x22] @ '' '' @
     [CHR 0x22] @ ''./dtd/technicalContent/dtd/map.dtd'' @ [CHR 0x22] @ ''>''"

definition doctype_concept :: string where
  "doctype_concept =
     ''<!DOCTYPE concept PUBLIC '' @ [CHR 0x22] @ ''-//OASIS//DTD DITA 1.3 Concept//EN'' @ [CHR 0x22] @
     '' '' @ [CHR 0x22] @ ''../dtd/technicalContent/dtd/concept.dtd'' @ [CHR 0x22] @ ''>''"

definition setdefault :: "string \<Rightarrow> 'a \<Rightarrow> 'a dict \<Rightarrow> 'a dict" where
  "setdefault k v d = (if dict_in k d then d else AList.update k v d)"

definition create_dita_context ::
  "env \<Rightarrow> config \<Rightarrow> pyval dict \<Rightarrow> path \<Rightarrow> video_info \<Rightarrow> exn + xml dita_context" where
  "create_dita_context ev cfg md video_path vi =
     (case generate_topic_id (tables ev) (filename vi) of
        Inl e \<Rightarrow> Inl e
      | Inr topic_id \<Rightarrow>
          (let topic_filename = topic_id @ ''.dita'' in
           case build_video_topic (tables ev) md cfg topic_id vi of
             Inl e \<Rightarrow> Inl e
           | Inr topic_element \<Rightarrow>
               (case get_video_media_filename (tables ev) cfg (filename vi) of
                  Inl e \<Rightarrow> Inl e
                | Inr video_filename \<Rightarrow>
                    (case read_bytes ev video_path of
                       Inl e \<Rightarrow> Inl e
                     | Inr blob \<Rightarrow>
                         Inr ((DitaContext :: xml dita_context)
                           \<lparr>topics := [(topic_filename, topic_element)],
                            videos := [(video_filename, blob)],
                            ditamap_root := Some (create_ditamap md (today_utc ev) topic_filename vi),
                            metadata :=
                              setdefault ''revision_date'' (Str (today_utc ev))
                                (setdefault ''manual_title'' (Str ''VIDEO-LIBRARY'')
                                   [(''doctype_map'', Str doctype_map),
                                    (''doctype_concept'', Str doctype_concept),
                                    (''title'', Str (py_or (md_get md ''video_title'')
                                                     (path_stem (parse_path (filename vi))))),
                                    (''source_file'', Str (filename vi)),
                                    (''conversion_date'', Str (now_iso ev)),
                                    (''video_metadata'', Info vi),
                                    (''plugin'', Str ''orlando-video-plugin'')])\<rparr>)))))"

section \<open>The document handler (\<^verbatim>\<open>VideoDocumentHandler\<close>)\<close>

definition supported_extensions :: "string list" where
  "supported_extensions = [''.mp4'', ''.avi'', ''.mov'', ''.wmv'', ''.webm'', ''.mkv'']"

text \<open>\<^verbatim>\<open>can_handle\<close>; the argument is \<^verbatim>\<open>None\<close> or a path (a path object is always true).\<close>

definition can_handle :: "env \<Rightarrow> path option \<Rightarrow> bool" where
  "can_handle ev file_path =
     (case file_path of
        None \<Rightarrow> False
      | Some p \<Rightarrow>
          (if path_exists ev p
           then str_lower (tables ev) (path_suffix p) \<in> set supported_extensions
           else False))"

text \<open>
  \<^verbatim>\<open>VideoProcessor.extract_metadata\<close>: the name and the lower-cased suffix of the path,
  around what the probe reports.
\<close>

definition extract_metadata :: "env \<Rightarrow> path \<Rightarrow> exn + video_info" where
  "extract_metadata ev video_path =
     (case probe_metadata ev video_path of
        Inl e \<Rightarrow> Inl e
      | Inr ps \<Rightarrow>
          Inr \<lparr>filename = path_name video_path,
               extension = str_lower (tables ev) (path_suffix video_path),
               props = AList.update ''format''
                         (lstrip ''.'' (str_lower (tables ev) (path_suffix video_path))) ps\<rparr>)"

text \<open>
  The body of the \<^verbatim>\<open>try\<close> block of \<^verbatim>\<open>convert_to_dita\<close> (called without a progress
  callback): validation, metadata, the context of the builder, and the title of every
  topic set to the stem of the file name.
\<close>

definition retitle :: "string \<Rightarrow> xml \<Rightarrow> xml" where
  "retitle s topic_el =
     Element (tag topic_el) (attrib topic_el) (etext topic_el)
       (set_first_text ''title'' s (children topic_el))"

definition convert_body :: "env \<Rightarrow> config \<Rightarrow> path \<Rightarrow> pyval dict \<Rightarrow> exn + xml dita_context" where
  "convert_body ev cfg file_path md =
     (if validate_format ev file_path then
        (case extract_metadata ev file_path of
           Inl e \<Rightarrow> Inl e
         | Inr vi \<Rightarrow>
             (case create_dita_context ev cfg md file_path vi of
                Inl e \<Rightarrow> Inl e
              | Inr context \<Rightarrow>
                  Inr (context
                    \<lparr>topics := map (\<lambda>(fname, topic_el).
                        (fname, retitle (path_stem (parse_path (filename vi))) topic_el))
                        (topics context)\<rparr>)))
      else Inl (Exn ''ValueError''
             (''Unsupported or corrupted video file: '' @ path_str file_path)))"

text \<open>
  \<^verbatim>\<open>convert_to_dita\<close>: whatever the body raises is raised again as an \<^verbatim>\<open>Exception\<close> whose
  message names the file and the cause.
\<close>

definition convert_to_dita :: "env \<Rightarrow> config \<Rightarrow> path \<Rightarrow> pyval dict \<Rightarrow> exn + xml dita_context" where
  "convert_to_dita ev cfg file_path md =
     (case validate_file_exists ev file_path of
        Some e \<Rightarrow> Inl e
      | None \<Rightarrow>
          (case convert_body ev cfg file_path md of
             Inl e \<Rightarrow>
               Inl (Exn ''Exception''
                      (''Failed to convert video '' @ path_str file_path @ '': '' @ exn_msg e))
           | Inr context \<Rightarrow> Inr context))"

section \<open>The combined map\<close>

text \<open>
  The map of the merged project is mutated through references: the launcher appends
  below the root and below folder elements that it also keeps in a cache.  The tree is
  therefore a store of nodes; a reference to an element is its index, the children of a
  node are references, and node \<open>0\<close> is the root \<^verbatim>\<open>map\<close> element.  \<^verbatim>\<open>ET.SubElement\<close>
  allocates the next index and appends it to the children of the parent.
\<close>

record node =
  ntag :: string
  nattrib :: "string dict"
  ntext :: "string option"
  nchildren :: "nat list"

type_synonym store = "node list"

definition new_node :: "string \<Rightarrow> node" where
  "new_node t = \<lparr>ntag = t, nattrib = [], ntext = None, nchildren = []\<rparr>"

definition SubElement :: "store \<Rightarrow> nat \<Rightarrow> string \<Rightarrow> store \<times> nat" where
  "SubElement st parent t =
     (st[parent := (st ! parent)\<lparr>nchildren := nchildren (st ! parent) @ [length st]\<rparr>] @ [new_node t],
      length st)"

definition set_attr :: "store \<Rightarrow> nat \<Rightarrow> string \<Rightarrow> string \<Rightarrow> store" where
  "set_attr st el k v = st[el := (st ! el)\<lparr>nattrib := AList.update k v (nattrib (st ! el))\<rparr>]"

definition set_text :: "store \<Rightarrow> nat \<Rightarrow> string \<Rightarrow> store" where
  "set_text st el s = st[el := (st ! el)\<lparr>ntext := Some s\<rparr>]"

section \<open>Folder nodes (\<^verbatim>\<open>_ensure_folder_nodes\<close>)\<close>

text \<open>
  The \<^verbatim>\<open>for\<close> loop over the parts of the relative path: \<open>path_accum\<close> is the prefix walked
  so far and \<open>parent\<close> the element reached.  A prefix found in the cache is reused; for
  an absent prefix a \<^verbatim>\<open>topichead\<close> with a \<^verbatim>\<open>topicmeta/navtitle\<close> naming the part is created
  below \<open>parent\<close> and cached.
\<close>

fun ensure_loop ::
  "store \<Rightarrow> nat dict \<Rightarrow> string list \<Rightarrow> nat \<Rightarrow> string list \<Rightarrow> store \<times> nat dict \<times> nat" where
  "ensure_loop st cache path_accum parent [] = (st, cache, parent)"
| "ensure_loop st cache path_accum parent (part # rest) =
     (let key = join ''/'' (path_accum @ [part]) in
      case map_of cache key of
        Some n \<Rightarrow> ensure_loop st cache (path_accum @ [part]) n rest
      | None \<Rightarrow>
          (let (st1, head) = SubElement st parent ''topichead'';
               (st2, meta) = SubElement st1 head ''topicmeta'';
               (st3, nav) = SubElement st2 meta ''navtitle'';
               st4 = set_text st3 nav part
           in ensure_loop st4 (AList.update key head cache) (path_accum @ [part]) head rest))"

text \<open>The parts of the relative path: \<^verbatim>\<open>[p for p in rel_key.split('/') if p]\<close>.\<close>

definition segments :: "string \<Rightarrow> string list" where
  "segments rel_key = filter (\<lambda>p. p \<noteq> []) (split_char CHR ''/'' rel_key)"

definition ensure_folder_nodes ::
  "store \<Rightarrow> nat \<Rightarrow> nat dict \<Rightarrow> string \<Rightarrow> store \<times> nat dict \<times> nat" where
  "ensure_folder_nodes st map_el cache rel_key =
     (case map_of cache rel_key of
        Some n \<Rightarrow> (st, cache, n)
      | None \<Rightarrow> ensure_loop st cache [] map_el (segments rel_key))"

section \<open>The batch conversion (\<^verbatim>\<open>_convert_many\<close>)\<close>

text \<open>
  A document handler is its \<^verbatim>\<open>convert_to_dita\<close>; the service registry of the host is its
  \<^verbatim>\<open>find_handler_for_file\<close>, which yields a handler or \<^verbatim>\<open>None\<close>.
\<close>

type_synonym handler = "path \<Rightarrow> pyval dict \<Rightarrow> exn + xml dita_context"

type_synonym registry = "path \<Rightarrow> handler option"

text \<open>
  The state of the loop over the files: the combined context, the element tree that
  \<^verbatim>\<open>combined.ditamap_root\<close> refers to, and the cache of folder nodes.
\<close>

record loop_state =
  combined :: "store dita_context"
  map_el :: store
  folder_nodes :: "nat dict"

text \<open>Merging the topics, with the renames that were needed.\<close>

fun merge_topics :: "xml dict \<Rightarrow> xml dict \<times> string dict \<Rightarrow> xml dict \<times> string dict" where
  "merge_topics [] acc = acc"
| "merge_topics ((tname, topic_el) # rest) (ctopics, rename_map) =
     (let safe_name = dedup_name tname ctopics
      in merge_topics rest
           (AList.update safe_name topic_el ctopics,
            if safe_name \<noteq> tname then AList.update tname safe_name rename_map else rename_map))"

text \<open>Merging images, videos and the per-video metadata: each in its own name space.\<close>

fun merge_dict :: "'a dict \<Rightarrow> 'a dict \<Rightarrow> 'a dict" where
  "merge_dict [] dst = dst"
| "merge_dict ((k, v) # rest) dst = merge_dict rest (AList.update (dedup_name k dst) v dst)"

text \<open>
  The \<^verbatim>\<open>href\<close> of the converted file: that of the first \<^verbatim>\<open>topicref\<close> of its map, or else
  the first topic file name.
\<close>

definition pick_href :: "xml dita_context \<Rightarrow> string option" where
  "pick_href ctx =
     (let href = (case ditamap_root ctx of
                    None \<Rightarrow> None
                  | Some child_map \<Rightarrow>
                      (case find_topicref child_map of
                         None \<Rightarrow> None
                       | Some tref \<Rightarrow> map_of (attrib tref) ''href''))
      in if (href = None \<or> href = Some []) \<and> topics ctx \<noteq> []
         then Some (''topics/'' @ fst (hd (topics ctx)))
         else href)"

text \<open>
  Placing the \<^verbatim>\<open>topicref\<close>: below the root, or in folder mode below the folder node of
  the directory of the file relative to the root folder; \<^verbatim>\<open>relative_to\<close> raises for a
  file outside the root folder.  The element operations of the \<^verbatim>\<open>try\<close> block are total in
  the model, so its \<^verbatim>\<open>except\<close> arm is never taken.
\<close>

definition target_parent ::
  "path option \<Rightarrow> path \<Rightarrow> store \<Rightarrow> nat dict \<Rightarrow> exn + (store \<times> nat dict \<times> nat)" where
  "target_parent root_folder f st cache =
     (case root_folder of
        None \<Rightarrow> Inr (st, cache, 0)
      | Some r \<Rightarrow>
          (case relative_to f r of
             Inl e \<Rightarrow> Inl e
           | Inr rel_file \<Rightarrow>
               (let rel = path_parent rel_file;
                    rel_key = (if path_str rel = ''.'' then [] else path_str rel)
                in if rel_key = [] then Inr (st, cache, 0)
                   else Inr (ensure_folder_nodes st 0 cache rel_key))))"

definition append_topicref ::
  "store \<Rightarrow> nat \<Rightarrow> string \<Rightarrow> string dict \<Rightarrow> path \<Rightarrow> store" where
  "append_topicref st parent href rename_map f =
     (let (st1, tref) = SubElement st parent ''topicref'';
          base = basename href;
          new_base = (case map_of rename_map base of Some n \<Rightarrow> n | None \<Rightarrow> base);
          st2 = set_attr st1 tref ''href'' (''topics/'' @ new_base);
          (st3, topicmeta) = SubElement st2 tref ''topicmeta'';
          (st4, nav) = SubElement st3 topicmeta ''navtitle''
      in set_text st4 nav (path_stem f))"

text \<open>
  The body of the loop once the conversion of file \<open>f\<close> has returned the context \<open>ctx\<close>:
  merge topics, media and per-video metadata, then attach the reference.  The \<^verbatim>\<open>try\<close>
  around the merge of the metadata guards dictionary accesses that cannot fail on the
  typed context.
\<close>

definition merge_result ::
  "path option \<Rightarrow> loop_state \<Rightarrow> path \<Rightarrow> xml dita_context \<Rightarrow> exn + loop_state" where
  "merge_result root_folder s f ctx =
     (let (ctopics, rename_map) = merge_topics (topics ctx) (topics (combined s), []);
          c = (combined s)
            \<lparr>topics := ctopics,
             images := merge_dict (images ctx) (images (combined s)),
             videos := merge_dict (videos ctx) (videos (combined s)),
             video_info_map := merge_dict (video_info_map ctx) (video_info_map (combined s))\<rparr>
      in case pick_href ctx of
           None \<Rightarrow> Inr (s\<lparr>combined := c\<rparr>)
         | Some href \<Rightarrow>
             (if href = [] then Inr (s\<lparr>combined := c\<rparr>)
              else (case target_parent root_folder f (map_el s) (folder_nodes s) of
                      Inl e \<Rightarrow> Inl e
                    | Inr (st, cache, parent) \<Rightarrow>
                        Inr \<lparr>combined = c,
                             map_el = append_topicref st parent href rename_map f,
                             folder_nodes = cache\<rparr>)))"

text \<open>
  One iteration: a file without a handler is passed over; the handler is called with the
  manual title of the combined context as its only setting, and what it raises leaves the
  loop.
\<close>

definition conversion_settings :: "store dita_context \<Rightarrow> pyval dict" where
  "conversion_settings c =
     [(''manual_title'',
       (case map_of (metadata c) ''manual_title'' of Some v \<Rightarrow> v | None \<Rightarrow> Str ''Videos''))]"

definition process_file ::
  "registry \<Rightarrow> path option \<Rightarrow> loop_state \<Rightarrow> path \<Rightarrow> exn + loop_state" where
  "process_file reg root_folder s f =
     (case reg f of
        None \<Rightarrow> Inr s
      | Some h \<Rightarrow>
          (case h f (conversion_settings (combined s)) of
             Inl e \<Rightarrow> Inl e
           | Inr ctx \<Rightarrow> merge_result root_folder s f ctx))"

fun convert_loop :: "registry \<Rightarrow> path option \<Rightarrow> loop_state \<Rightarrow> path list \<Rightarrow> exn + loop_state" where
  "convert_loop reg root_folder s [] = Inr s"
| "convert_loop reg root_folder s (f # fs) =
     (case process_file reg root_folder s f of
        Inl e \<Rightarrow> Inl e
      | Inr s' \<Rightarrow> convert_loop reg root_folder s' fs)"

text \<open>
  The context before the first file: the placeholder title, the revision date (the
  current UTC date), the provenance tag and the \<^verbatim>\<open>DOCTYPE\<close> hints, and a map that is a
  single root element (without \<^verbatim>\<open>xml:lang\<close>: \<^verbatim>\<open>lxml\<close> refuses the attribute name and the source
  passes over the error).
\<close>

definition initial_state :: "string option \<Rightarrow> string \<Rightarrow> loop_state" where
  "initial_state plugin_id today =
     \<lparr>combined = (DitaContext :: store dita_context)
        \<lparr>metadata := [(''manual_title'', Str ''VIDEO-LIBRARY''), (''revision_date'', Str today),
                      (''doctype_map'', Str doctype_map), (''doctype_concept'', Str doctype_concept)],
         source_plugin := Some (case plugin_id of None \<Rightarrow> ''orlando-video-plugin'' | Some i \<Rightarrow> i)\<rparr>,
      map_el = [new_node ''map''],
      folder_nodes = []\<rparr>"

definition convert_many ::
  "registry \<Rightarrow> string option \<Rightarrow> string \<Rightarrow> path list \<Rightarrow> path option \<Rightarrow> exn + store dita_context" where
  "convert_many reg plugin_id today files root_folder =
     (case convert_loop reg root_folder (initial_state plugin_id today) files of
        Inl e \<Rightarrow> Inl e
      | Inr s \<Rightarrow> Inr ((combined s)\<lparr>ditamap_root := Some (map_el s)\<rparr>))"

text \<open>
  Modelled from the spec: the host's \<^verbatim>\<open>find_handler_for_file\<close> is not part of the plugin.
  With the video handler as the registered converter, a file is handled when the
  converter's \<^verbatim>\<open>canHandle\<close> accepts it, and is unsupported otherwise.
\<close>

definition video_registry :: "env \<Rightarrow> config \<Rightarrow> registry" where
  "video_registry ev cfg f = (if can_handle ev (Some f) then Some (convert_to_dita ev cfg) else None)"

section \<open>Observations\<close>

text \<open>
  The settings every handler receives in a run (the placeholder title never changes), the
  accepted files of a batch, and its conversions: each accepted file with the context its
  handler returns.
\<close>

definition batch_settings :: "pyval dict" where
  "batch_settings = [(''manual_title'', Str ''VIDEO-LIBRARY'')]"

definition accepted :: "registry \<Rightarrow> path list \<Rightarrow> path list" where
  "accepted reg files = filter (\<lambda>f. reg f \<noteq> None) files"

definition conversions :: "registry \<Rightarrow> path list \<Rightarrow> (path \<times> xml dita_context) list" where
  "conversions reg files =
     concat (map (\<lambda>f. case reg f of
                         None \<Rightarrow> []
                       | Some h \<Rightarrow> (case h f batch_settings of Inl e \<Rightarrow> [] | Inr ctx \<Rightarrow> [(f, ctx)]))
               files)"

text \<open>
  A conversion result of the shape the specification gives to the single-file converter:
  exactly one topic, and a map fragment whose reference names that topic.
\<close>

definition wellformed_result :: "xml dita_context \<Rightarrow> bool" where
  "wellformed_result ctx =
     (case topics ctx of
        [(tname, el)] \<Rightarrow>
          (case pick_href ctx of None \<Rightarrow> False | Some href \<Rightarrow> basename href = tname)
      | _ \<Rightarrow> False)"

text \<open>
  The targets of the reference nodes of a map in the order of their creation, and the
  label of a reference or folder node: the text of its \<^verbatim>\<open>topicmeta/navtitle\<close>.
\<close>

definition reference_targets :: "store \<Rightarrow> string option list" where
  "reference_targets st =
     map (\<lambda>n. map_of (nattrib n) ''href'') (filter (\<lambda>n. ntag n = ''topicref'') st)"

definition child_with_tag :: "store \<Rightarrow> nat \<Rightarrow> string \<Rightarrow> nat option" where
  "child_with_tag st i t = List.find (\<lambda>k. ntag (st ! k) = t) (nchildren (st ! i))"

definition navtitle_of :: "store \<Rightarrow> nat \<Rightarrow> string option" where
  "navtitle_of st i =
     (case child_with_tag st i ''topicmeta'' of
        None \<Rightarrow> None
      | Some m \<Rightarrow> (case child_with_tag st m ''navtitle'' of None \<Rightarrow> None | Some n \<Rightarrow> ntext (st ! n)))"

text \<open>
  The media files a topic document refers to: the \<^verbatim>\<open>data\<close> attributes of its \<^verbatim>\<open>object\<close>
  elements (written by \<open>add_video_element\<close>).
\<close>

definition media_refs :: "xml \<Rightarrow> string list" where
  "media_refs el =
     concat (map (\<lambda>e. case map_of (attrib e) ''data'' of None \<Rightarrow> [] | Some d \<Rightarrow> [d])
               (filter (\<lambda>e. tag e = ''object'') (el # descendants el)))"

text \<open>
  The cache keys that the loop of \<open>ensure_loop\<close> looks up, in order: the prefixes of the
  path joined by \<^verbatim>\<open>/\<close>, starting after the prefix \<open>path_accum\<close>.
\<close>

fun prefix_keys :: "string list \<Rightarrow> string list \<Rightarrow> string list" where
  "prefix_keys path_accum [] = []"
| "prefix_keys path_accum (part # rest) =
     join ''/'' (path_accum @ [part]) # prefix_keys (path_accum @ [part]) rest"

text \<open>
  The split described in the specification's words, for comparison with \<open>splitext\<close>: the
  extension is the substring from the last dot onward, or empty if there is no dot.
\<close>

definition split_last_dot :: "string \<Rightarrow> string \<times> string" where
  "split_last_dot name =
     (if CHR ''.'' \<in> set name
      then (take (nat (rfind name CHR ''.'')) name, drop (nat (rfind name CHR ''.'')) name)
      else (name, []))"

text \<open>
  What the proofs use of the Unicode tables, and what holds of the tables of the
  interpreter: on ASCII the letters are \<^verbatim>\<open>A-Z\<close> and \<^verbatim>\<open>a-z\<close> and the alphanumeric characters
  are the letters and the digits \<^verbatim>\<open>0-9\<close>; lower-casing a string that has an alphanumeric
  character gives a string that has one; lower-casing a string that has no alphanumeric
  character and none of space, hyphen, underscore and dot gives such a string.
\<close>

definition tables_ok :: "unicode \<Rightarrow> bool" where
  "tables_ok u =
     ((\<forall>c. ascii_char c \<longrightarrow> str_isalpha u c = ascii_letter c \<and> str_isalnum u c = ascii_alnum c) \<and>
      (\<forall>s. (\<exists>c\<in>set s. str_isalnum u c) \<longrightarrow> (\<exists>c\<in>set (str_lower u s). str_isalnum u c)) \<and>
      (\<forall>s. (\<forall>c\<in>set s. \<not> str_isalnum u c \<and> c \<notin> set '' -_.'') \<longrightarrow>
           (\<forall>c\<in>set (str_lower u s). \<not> str_isalnum u c \<and> c \<notin> set '' -_.'')))"

section \<open>Examples\<close>

text \<open>
  Tables for the examples: the letters and digits of ASCII, and the letter \<^verbatim>\<open>e\<close> with an
  acute accent in lower case (code point \<^verbatim>\<open>0xE9\<close>) and in upper case (\<^verbatim>\<open>0xC9\<close>).
\<close>

definition demo_tables :: unicode where
  "demo_tables =
     \<lparr>str_isalnum = (\<lambda>c. ascii_alnum c \<or> c \<in> set [CHR 0xE9, CHR 0xC9]),
      str_isalpha = (\<lambda>c. ascii_letter c \<or> c \<in> set [CHR 0xE9, CHR 0xC9]),
      str_lower = map (\<lambda>c. if c = CHR 0xC9 then CHR 0xE9 else ascii_lower_char c)\<rparr>"

text \<open>
  An environment in which every path but \<^verbatim>\<open>missing.mp4\<close> exists, \<^verbatim>\<open>d.mp4\<close> is a directory,
  \<^verbatim>\<open>bad.mp4\<close> and the directory cannot be read as a video, and the path of a file is taken
  for its bytes; a batch with an unsupported file and a batch with a failing file.
\<close>

definition demo_env :: env where
  "demo_env =
     \<lparr>fs_entry = (\<lambda>p. if path_name p = ''missing.mp4'' then None
                      else if path_name p = ''d.mp4'' then Some Directory
                      else Some RegularFile),
      validate_file_exists = (\<lambda>p. None),
      validate_format = (\<lambda>p. path_name p \<notin> set [''bad.mp4'', ''d.mp4'']),
      probe_metadata = (\<lambda>p. Inr [(''width'', ''640''), (''height'', ''480'')]),
      read_bytes = (\<lambda>p. Inr (path_str p)),
      today_utc = ''2026-01-01'',
      now_iso = ''2026-01-01T00:00:00'',
      tables = demo_tables\<rparr>"

definition demo_config :: config where
  "demo_config = \<lparr>preserve_original_filenames = True\<rparr>"

definition demo_files :: "path list" where
  "demo_files = [Path True [''r'', ''a.mp4''], Path True [''r'', ''notes.txt''],
                 Path True [''r'', ''sub'', ''a.mp4'']]"

definition failing_files :: "path list" where
  "failing_files = [Path True [''r'', ''a.mp4''], Path True [''r'', ''bad.mp4''],
                    Path True [''r'', ''c.mp4'']]"

text \<open>
  The loop takes the handler of a file from the registry of the host and merges the
  per-video metadata that the result of the handler carries; the video handler of the
  plugin never writes any.  A handler for examples that does: one topic and one video
  per file, and the per-video metadata that \<open>info\<close> assigns to the file.
\<close>

definition stub_handler :: "(path \<Rightarrow> (string dict) dict) \<Rightarrow> handler" where
  "stub_handler info f md =
     Inr ((DitaContext :: xml dita_context)
       \<lparr>topics := [(path_stem f @ ''.dita'', Element ''concept'' [] None [])],
        videos := [(path_name f, path_str f)],
        video_info_map := info f\<rparr>)"

definition info_for_b :: "path \<Rightarrow> (string dict) dict" where
  "info_for_b f =
     (if path_name (path_parent f) = ''b'' then [(path_name f, [(''duration'', ''0:10'')])] else [])"

definition info_for_all :: "path \<Rightarrow> (string dict) dict" where
  "info_for_all f = [(path_name f, [(''source'', path_str f)])]"

section \<open>Auxiliary notions\<close>

text \<open>
  The store after \<^verbatim>\<open>ET.SubElement\<close> is the old store with the new index among the children
  of the parent (\<open>add_child\<close>) followed by the new node.  \<open>ref_nodes\<close> and \<open>head_nodes\<close> are
  the three nodes that a reference and a folder consist of.
\<close>

definition add_child :: "store \<Rightarrow> nat \<Rightarrow> store" where
  "add_child st parent = st[parent := (st ! parent)\<lparr>nchildren := nchildren (st ! parent) @ [length st]\<rparr>]"

definition ref_nodes :: "nat \<Rightarrow> string \<Rightarrow> string \<Rightarrow> node list" where
  "ref_nodes n target label =
     [\<lparr>ntag = ''topicref'', nattrib = [(''href'', target)], ntext = None, nchildren = [n + 1]\<rparr>,
      \<lparr>ntag = ''topicmeta'', nattrib = [], ntext = None, nchildren = [n + 2]\<rparr>,
      \<lparr>ntag = ''navtitle'', nattrib = [], ntext = Some label, nchildren = []\<rparr>]"

definition head_nodes :: "nat \<Rightarrow> string \<Rightarrow> node list" where
  "head_nodes n label =
     [\<lparr>ntag = ''topichead'', nattrib = [], ntext = None, nchildren = [n + 1]\<rparr>,
      \<lparr>ntag = ''topicmeta'', nattrib = [], ntext = None, nchildren = [n + 2]\<rparr>,
      \<lparr>ntag = ''navtitle'', nattrib = [], ntext = Some label, nchildren = []\<rparr>]"

text \<open>
  The tags and attributes of the nodes of a store, and a reference to a file with the
  given label whose three nodes start at index \<open>i\<close>.
\<close>

definition tagged :: "store \<Rightarrow> (string \<times> string dict) list" where
  "tagged st = map (\<lambda>n. (ntag n, nattrib n)) st"

definition ref_at :: "store \<Rightarrow> nat \<Rightarrow> string \<Rightarrow> bool" where
  "ref_at st i label = (0 < i \<and> (\<exists>target. take 3 (drop i st) = ref_nodes i target label))"

text \<open>The number of characters of a list of strings.\<close>

definition total :: "string list \<Rightarrow> nat" where
  "total xs = sum_list (map length xs)"

text \<open>
  The loop with the conversions already made (\<open>merge_all\<close>), and the property that the
  settings passed to the handlers are those of the batch.
\<close>

definition settings_ok :: "loop_state \<Rightarrow> bool" where
  "settings_ok s = (conversion_settings (combined s) = batch_settings)"

fun merge_all ::
  "path option \<Rightarrow> loop_state \<Rightarrow> (path \<times> xml dita_context) list \<Rightarrow> exn + loop_state" where
  "merge_all root s [] = Inr s"
| "merge_all root s ((f, ctx) # rest) =
     (case merge_result root s f ctx of Inl e \<Rightarrow> Inl e | Inr s' \<Rightarrow> merge_all root s' rest)"

section \<open>Properties of the de-duplication\<close>

lemma dedup_loop_first_free:
  "\<exists>k. dedup_loop base ext used i = candidate base ext (i + k) \<and>
       \<not> dict_in (candidate base ext (i + k)) used \<and>
       (\<forall>j<k. dict_in (candidate base ext (i + j)) used)"
proof (induction base ext used i rule: dedup_loop.induct)
  case (1 base ext used i)
  show ?case
  proof (cases "dict_in (candidate base ext i) used")
    case False
    then have "dedup_loop base ext used i = candidate base ext (i + 0)"
      by (subst dedup_loop.simps) simp
    with False show ?thesis by (intro exI [of _ 0]) simp
  next
    case True
    from "1.IH" [OF True] obtain k where
      k: "dedup_loop base ext used (i + 1) = candidate base ext (i + 1 + k)"
         "\<not> dict_in (candidate base ext (i + 1 + k)) used"
         "\<forall>j<k. dict_in (candidate base ext (i + 1 + j)) used"
      by blast
    have "dedup_loop base ext used i = candidate base ext (i + Suc k)"
      using True k(1) by (subst dedup_loop.simps) simp
    moreover have "\<not> dict_in (candidate base ext (i + Suc k)) used"
      using k(2) by simp
    moreover have "\<forall>j<Suc k. dict_in (candidate base ext (i + j)) used"
    proof (intro allI impI)
      fix j assume "j < Suc k"
      show "dict_in (candidate base ext (i + j)) used"
      proof (cases j)
        case 0
        with True show ?thesis by simp
      next
        case (Suc j')
        with \<open>j < Suc k\<close> k(3) show ?thesis by simp
      qed
    qed
    ultimately show ?thesis by blast
  qed
qed

lemma dedup_name_fresh: "\<not> dict_in (dedup_name name used) used"
proof (cases "dict_in name used")
  case False
  then show ?thesis by (simp add: dedup_name_def)
next
  case True
  obtain base ext where s: "splitext name = (base, ext)" by (cases "splitext name")
  from dedup_loop_first_free [of base ext used 2] True s show ?thesis
    by (auto simp: dedup_name_def)
qed

text \<open>
  Claim C3, as the code has it.  A name that is not a key is returned unchanged.  A name
  that is a key is split by \<open>splitext\<close> into base and extension, and the result is the
  first of the candidates \<open>base-2ext\<close>, \<open>base-3ext\<close>, ... that is not a key: it is the
  candidate of some \<open>i \<ge> 2\<close>, it is not a key, and every candidate of a smaller index from
  \<open>2\<close> on is a key.  The split is that of \<^verbatim>\<open>os.path.splitext\<close>, which differs from a split
  at the last dot on names whose last component begins with dots.
\<close>

theorem dedup_name_first_free:
  "(\<not> dict_in name used \<longrightarrow> dedup_name name used = name) \<and>
   (dict_in name used \<longrightarrow>
      (\<exists>i\<ge>2. dedup_name name used = candidate (fst (splitext name)) (snd (splitext name)) i \<and>
         \<not> dict_in (dedup_name name used) used \<and>
         (\<forall>j. 2 \<le> j \<and> j < i \<longrightarrow>
            dict_in (candidate (fst (splitext name)) (snd (splitext name)) j) used)))"
proof (intro conjI impI)
  assume "\<not> dict_in name used"
  then show "dedup_name name used = name" by (simp add: dedup_name_def)
next
  assume h: "dict_in name used"
  obtain base ext where s: "splitext name = (base, ext)" by (cases "splitext name")
  from dedup_loop_first_free [of base ext used 2] obtain k where
    k: "dedup_loop base ext used 2 = candidate base ext (2 + k)"
       "\<not> dict_in (candidate base ext (2 + k)) used"
       "\<forall>j<k. dict_in (candidate base ext (2 + j)) used"
    by blast
  have d: "dedup_name name used = candidate base ext (2 + k)"
    using h s k(1) by (simp add: dedup_name_def)
  have "\<forall>j. 2 \<le> j \<and> j < 2 + k \<longrightarrow> dict_in (candidate base ext j) used"
  proof (intro allI impI)
    fix j assume j: "2 \<le> j \<and> j < 2 + k"
    then have "j - 2 < k" by linarith
    with k(3) have "dict_in (candidate base ext (2 + (j - 2))) used" by blast
    moreover from j have "2 + (j - 2) = j" by linarith
    ultimately show "dict_in (candidate base ext j) used" by simp
  qed
  with d k(2) s show "\<exists>i\<ge>2. dedup_name name used = candidate (fst (splitext name)) (snd (splitext name)) i \<and>
         \<not> dict_in (dedup_name name used) used \<and>
         (\<forall>j. 2 \<le> j \<and> j < i \<longrightarrow>
            dict_in (candidate (fst (splitext name)) (snd (splitext name)) j) used)"
    by (intro exI [of _ "2 + k"]) simp
qed

theorem dedup_name_first_free_witness:
  "dict_in ''clip.mp4'' [(''clip.mp4'', ()), (''clip-2.mp4'', ())] \<and>
   splitext ''clip.mp4'' = (''clip'', ''.mp4'') \<and>
   dedup_name ''clip.mp4'' [(''clip.mp4'', ()), (''clip-2.mp4'', ())] = candidate ''clip'' ''.mp4'' 3 \<and>
   candidate ''clip'' ''.mp4'' 3 = ''clip-3.mp4'' \<and>
   \<not> dict_in ''intro.mp4'' [(''clip.mp4'', ())] \<and>
   dedup_name ''intro.mp4'' [(''clip.mp4'', ())] = ''intro.mp4''"
  using dedup_name_first_free [of "''clip.mp4''" "[(''clip.mp4'', ()), (''clip-2.mp4'', ())]"]
    dedup_name_first_free [of "''intro.mp4''" "[(''clip.mp4'', ())]"]
  by (simp add: dedup_name_def dict_in_def splitext_def rfind_def dedup_loop.simps candidate_def
      str_nat.simps digit_char_def)

text \<open>
  The claim as worded fails on the name \<^verbatim>\<open>..mp4\<close>: split at the last dot, the base is
  \<^verbatim>\<open>.\<close> and the extension \<^verbatim>\<open>.mp4\<close>, so the first candidate would be \<^verbatim>\<open>.-2.mp4\<close>, which is
  not a key; the code returns \<^verbatim>\<open>..mp4-2\<close>.
\<close>

theorem dedup_name_last_dot_counterexample:
  "dict_in ''..mp4'' [(''..mp4'', ())] \<and>
   split_last_dot ''..mp4'' = (''.'', ''.mp4'') \<and>
   \<not> dict_in (''.'' @ ''-2'' @ ''.mp4'') [(''..mp4'', ())] \<and>
   dedup_name ''..mp4'' [(''..mp4'', ())] = ''..mp4-2'' \<and>
   dedup_name ''..mp4'' [(''..mp4'', ())] \<noteq> ''.'' @ ''-2'' @ ''.mp4''"
  by (simp add: dedup_name_def dict_in_def splitext_def rfind_def dedup_loop.simps candidate_def
      str_nat.simps digit_char_def split_last_dot_def)

section \<open>Properties of topic identifiers\<close>

lemma ascii_lower_char_cases:
  "(c \<notin> set ascii_uppercase \<and> ascii_lower_char c = c) \<or>
   (c \<in> set ascii_uppercase \<and> ascii_lower_char c \<in> set ascii_lowercase)"
proof (cases "map_of (zip ascii_uppercase ascii_lowercase) c")
  case None
  then have "c \<notin> fst ` set (zip ascii_uppercase ascii_lowercase)"
    by (simp add: map_of_eq_None_iff)
  moreover have "map fst (zip ascii_uppercase ascii_lowercase) = ascii_uppercase"
    by (simp add: ascii_uppercase_def ascii_lowercase_def)
  ultimately have "c \<notin> set ascii_uppercase" by (metis set_map)
  with None show ?thesis by (simp add: ascii_lower_char_def)
next
  case (Some l)
  then have "(c, l) \<in> set (zip ascii_uppercase ascii_lowercase)" by (rule map_of_SomeD)
  then have "c \<in> set ascii_uppercase" "l \<in> set ascii_lowercase"
    by (auto dest: set_zip_leftD set_zip_rightD)
  with Some show ?thesis by (simp add: ascii_lower_char_def)
qed

lemma ascii_alnum_lower_char: "ascii_alnum c \<Longrightarrow> ascii_alnum (ascii_lower_char c)"
  using ascii_lower_char_cases [of c] by (auto simp: ascii_alnum_def ascii_letter_def)

lemma ascii_lower_char_other: "\<not> ascii_alnum c \<Longrightarrow> ascii_lower_char c = c"
  using ascii_lower_char_cases [of c] by (auto simp: ascii_alnum_def ascii_letter_def)

lemma tables_okD:
  assumes "tables_ok u"
  shows "ascii_char c \<Longrightarrow> str_isalpha u c = ascii_letter c"
    and "ascii_char c \<Longrightarrow> str_isalnum u c = ascii_alnum c"
    and "\<exists>c\<in>set s. str_isalnum u c \<Longrightarrow> \<exists>c\<in>set (str_lower u s). str_isalnum u c"
    and "\<forall>c\<in>set s. \<not> str_isalnum u c \<and> c \<notin> set '' -_.'' \<Longrightarrow>
         \<forall>c\<in>set (str_lower u s). \<not> str_isalnum u c \<and> c \<notin> set '' -_.''"
  using assms unfolding tables_ok_def by blast+

lemma isalpha_not_hyphen:
  assumes "tables_ok u" and "str_isalpha u c"
  shows "c \<noteq> CHR ''-''"
proof
  assume "c = CHR ''-''"
  moreover have "ascii_char CHR ''-''" by (simp add: ascii_char_def)
  moreover have "\<not> ascii_letter CHR ''-''"
    by (simp add: ascii_letter_def ascii_lowercase_def ascii_uppercase_def)
  ultimately show False using tables_okD(1) [OF assms(1), of "CHR ''-''"] assms(2) by simp
qed

lemma isalpha_v:
  assumes "tables_ok u"
  shows "str_isalpha u CHR ''v''"
proof -
  have "ascii_char CHR ''v''" by (simp add: ascii_char_def)
  moreover have "ascii_letter CHR ''v''" by (simp add: ascii_letter_def ascii_lowercase_def)
  ultimately show ?thesis using tables_okD(1) [OF assms, of "CHR ''v''"] by simp
qed

lemma clean_chars_set: "set (clean_chars u s) \<subseteq> {c \<in> set s. str_isalnum u c} \<union> {CHR ''-''}"
  by (induction s) auto

lemma clean_chars_alnum: "c \<in> set s \<Longrightarrow> str_isalnum u c \<Longrightarrow> c \<in> set (clean_chars u s)"
  by (induction s) auto

lemma clean_chars_none:
  "\<forall>c\<in>set s. \<not> str_isalnum u c \<and> c \<notin> set '' -_.'' \<Longrightarrow> clean_chars u s = []"
  by (induction s) auto

lemma replace_dd_set: "set (replace_dd s) = set s"
  by (induction s rule: replace_dd.induct) auto

lemma collapse_hyphens_set: "set (collapse_hyphens s) = set s"
proof (induction s rule: collapse_hyphens.induct)
  case (1 s)
  then show ?case
    by (subst collapse_hyphens.simps) (simp add: replace_dd_set)
qed

lemma strip_general:
  assumes "s \<noteq> []" and "\<not> P (hd s)"
  shows "rev (dropWhile P (rev (dropWhile P s))) \<noteq> [] \<and>
         hd (rev (dropWhile P (rev (dropWhile P s)))) = hd s \<and>
         \<not> P (last (rev (dropWhile P (rev (dropWhile P s))))) \<and>
         length (rev (dropWhile P (rev (dropWhile P s)))) \<le> length s \<and>
         set (rev (dropWhile P (rev (dropWhile P s)))) \<subseteq> set s"
proof -
  obtain c cs where s: "s = c # cs" using assms(1) by (cases s) auto
  with assms(2) have c: "\<not> P c" by simp
  have d1: "dropWhile P s = s" using s c by simp
  define d where "d = dropWhile P (rev s)"
  have "rev s = rev cs @ c # []" using s by simp
  then have "d = dropWhile P (rev cs) @ c # []"
    unfolding d_def using c dropWhile_append3 [of P c "rev cs" "[]"] by simp
  then have dl: "d \<noteq> []" "last d = c" by simp_all
  have hdd: "\<not> P (hd d)" unfolding d_def using dl(1) d_def hd_dropWhile by blast
  have len: "length d \<le> length s"
    unfolding d_def using length_dropWhile_le [of P "rev s"] by simp
  have sub: "set d \<subseteq> set s"
    unfolding d_def using set_dropWhileD [of _ P "rev s"] by fastforce
  have "rev d \<noteq> []" using dl by simp
  moreover have "hd (rev d) = hd s" using dl s by (simp add: hd_rev)
  moreover have "\<not> P (last (rev d))" using dl hdd by (simp add: last_rev)
  moreover have "length (rev d) \<le> length s" using len by simp
  moreover have "set (rev d) \<subseteq> set s" using sub by simp
  ultimately show ?thesis unfolding d1 d_def by blast
qed

lemma strip_hyphen_keeps_head:
  assumes "s \<noteq> []" and "hd s \<noteq> CHR ''-''"
  shows "strip ''-'' s \<noteq> [] \<and> hd (strip ''-'' s) = hd s \<and> last (strip ''-'' s) \<noteq> CHR ''-''
         \<and> length (strip ''-'' s) \<le> length s \<and> set (strip ''-'' s) \<subseteq> set s"
proof -
  have "\<not> (\<lambda>c. c \<in> set ''-'') (hd s)" using assms(2) by simp
  from strip_general [of s "\<lambda>c. c \<in> set ''-''", OF assms(1) this]
  show ?thesis unfolding strip_def by simp
qed

lemma topic_candidate_set:
  "set (topic_candidate u fname) \<subseteq>
     {c \<in> set (str_lower u (path_stem (parse_path fname))). str_isalnum u c} \<union> {CHR ''-''}"
  unfolding topic_candidate_def Let_def
  using clean_chars_set [of u "str_lower u (path_stem (parse_path fname))"]
  by (simp only: collapse_hyphens_set)

lemma topic_candidate_nonempty:
  assumes "tables_ok u" and "\<exists>c\<in>set (path_stem (parse_path fname)). str_isalnum u c"
  shows "topic_candidate u fname \<noteq> []"
proof -
  define low where "low = str_lower u (path_stem (parse_path fname))"
  from tables_okD(3) [OF assms] obtain d where d: "d \<in> set low" "str_isalnum u d"
    unfolding low_def by blast
  then have "d \<in> set (clean_chars u low)" by (rule clean_chars_alnum)
  then have "d \<in> set (collapse_hyphens (clean_chars u low))" by (simp only: collapse_hyphens_set)
  then have "d \<in> set (topic_candidate u fname)"
    unfolding topic_candidate_def Let_def low_def .
  then show ?thesis by auto
qed

lemma topic_candidate_empty:
  assumes "tables_ok u"
    and "\<forall>c\<in>set (path_stem (parse_path fname)). \<not> str_isalnum u c \<and> c \<notin> set '' -_.''"
  shows "topic_candidate u fname = []"
proof -
  define low where "low = str_lower u (path_stem (parse_path fname))"
  from tables_okD(4) [OF assms]
  have "\<forall>c\<in>set low. \<not> str_isalnum u c \<and> c \<notin> set '' -_.''" unfolding low_def .
  then have "clean_chars u low = []" by (rule clean_chars_none)
  moreover have "collapse_hyphens [] = []" by (subst collapse_hyphens.simps) simp
  ultimately show ?thesis unfolding topic_candidate_def Let_def low_def by simp
qed

lemma generate_topic_id_Cons:
  assumes "topic_candidate u fname = h # rest"
    and "t1 = (if str_isalpha u h then h # rest else ''video-'' @ h # rest)"
    and "t2 = (if length t1 > 50 then take 50 t1 else t1)"
  shows "generate_topic_id u fname = Inr (strip ''-'' t2)"
  unfolding generate_topic_id_def Let_def assms by (simp only: list.case)

lemma prefixed_head:
  assumes "tables_ok u"
    and "t1 = (if str_isalpha u h then h # rest else ''video-'' @ h # rest)"
  shows "t1 \<noteq> [] \<and> str_isalpha u (hd t1) \<and>
         (str_isalpha u h \<longrightarrow> set t1 \<subseteq> set (h # rest)) \<and>
         set t1 \<subseteq> set (h # rest) \<union> set ''video-''"
proof (cases "str_isalpha u h")
  case True
  with assms(2) show ?thesis by auto
next
  case False
  with assms(2) have "t1 = CHR ''v'' # ''ideo-'' @ h # rest" by simp
  with isalpha_v [OF assms(1)] False show ?thesis by auto
qed

lemma truncated_head:
  assumes "t1 \<noteq> []" and "str_isalpha u (hd t1)"
    and "t2 = (if length t1 > 50 then take 50 t1 else t1)"
  shows "t2 \<noteq> [] \<and> str_isalpha u (hd t2) \<and> length t2 \<le> 50 \<and> set t2 \<subseteq> set t1"
  using assms by (cases t1) (auto dest: in_set_takeD)

lemma demo_tables_ok: "tables_ok demo_tables"
proof -
  let ?f = "\<lambda>c. if c = CHR 0xC9 then CHR 0xE9 else ascii_lower_char c"
  have a: "\<not> ascii_char (CHR 0xE9)" "\<not> ascii_char (CHR 0xC9)"
    by (simp_all add: ascii_char_def)
  have na: "\<not> ascii_alnum (CHR 0xE9)" "\<not> ascii_alnum (CHR 0xC9)"
    by (simp_all add: ascii_alnum_def ascii_letter_def ascii_lowercase_def ascii_uppercase_def
        digits_def)
  have e: "ascii_lower_char (CHR 0xE9) = CHR 0xE9" using na(1) by (rule ascii_lower_char_other)
  have k: "str_isalnum demo_tables c \<Longrightarrow> str_isalnum demo_tables (?f c)" for c
    using ascii_alnum_lower_char [of c] e by (auto simp: demo_tables_def)
  have n: "\<not> str_isalnum demo_tables c \<Longrightarrow> ?f c = c" for c
    using ascii_lower_char_other [of c] by (auto simp: demo_tables_def)
  have l: "str_lower demo_tables s = map ?f s" for s by (simp add: demo_tables_def)
  have 1: "ascii_char c \<longrightarrow> str_isalpha demo_tables c = ascii_letter c \<and>
                           str_isalnum demo_tables c = ascii_alnum c" for c
    using a by (auto simp: demo_tables_def)
  have 2: "(\<exists>c\<in>set s. str_isalnum demo_tables c) \<longrightarrow>
           (\<exists>c\<in>set (str_lower demo_tables s). str_isalnum demo_tables c)" for s
    unfolding l using k by fastforce
  have 3: "(\<forall>c\<in>set s. \<not> str_isalnum demo_tables c \<and> c \<notin> set '' -_.'') \<longrightarrow>
           (\<forall>c\<in>set (str_lower demo_tables s). \<not> str_isalnum demo_tables c \<and> c \<notin> set '' -_.'')" for s
  proof
    assume h: "\<forall>c\<in>set s. \<not> str_isalnum demo_tables c \<and> c \<notin> set '' -_.''"
    then have "map ?f s = s" by (intro map_idI) (simp add: n)
    with h show "\<forall>c\<in>set (str_lower demo_tables s). \<not> str_isalnum demo_tables c \<and> c \<notin> set '' -_.''"
      unfolding l by simp
  qed
  from 1 2 3 show ?thesis unfolding tables_ok_def by blast
qed

text \<open>
  Claim C10, as the code has it.  Let the tables be those of \<open>tables_ok\<close>.  For a file name
  whose stem holds an alphanumeric character the identifier is produced (the access to the
  first character succeeds): it is not empty, has at most 50 characters, begins with a
  letter and does not end with a hyphen.  When the candidate (the lower-cased stem,
  cleaned) begins with a letter, the characters of the identifier are alphanumeric
  characters of the lower-cased stem and hyphens.  When it does not, the code puts the
  prefix \<^verbatim>\<open>video-\<close> in front of it: the identifier then begins with \<^verbatim>\<open>v\<close>, and its characters
  are those of the prefix, alphanumeric characters of the lower-cased stem, and hyphens.
  For a stem without any alphanumeric character and without space, hyphen, underscore and
  dot the candidate is empty and the access to its first character raises \<^verbatim>\<open>IndexError\<close>.
\<close>

theorem generate_topic_id_valid:
  assumes "tables_ok u"
  shows "((\<exists>c\<in>set (path_stem (parse_path fname)). str_isalnum u c) \<longrightarrow>
            (\<exists>tid. generate_topic_id u fname = Inr tid \<and> tid \<noteq> [] \<and> length tid \<le> 50 \<and>
               str_isalpha u (hd tid) \<and> last tid \<noteq> CHR ''-'' \<and>
               (str_isalpha u (hd (topic_candidate u fname)) \<longrightarrow>
                  set tid \<subseteq> {c \<in> set (str_lower u (path_stem (parse_path fname))). str_isalnum u c}
                              \<union> {CHR ''-''}) \<and>
               (\<not> str_isalpha u (hd (topic_candidate u fname)) \<longrightarrow>
                  hd tid = CHR ''v'' \<and>
                  set tid \<subseteq> {c \<in> set (str_lower u (path_stem (parse_path fname))). str_isalnum u c}
                              \<union> {CHR ''-''} \<union> set ''video-''))) \<and>
         ((\<forall>c\<in>set (path_stem (parse_path fname)). \<not> str_isalnum u c \<and> c \<notin> set '' -_.'') \<longrightarrow>
            generate_topic_id u fname = Inl (Exn ''IndexError'' ''string index out of range''))"
proof (rule conjI)
  define A where "A = {c \<in> set (str_lower u (path_stem (parse_path fname))). str_isalnum u c}
                        \<union> {CHR ''-''}"
  show "(\<exists>c\<in>set (path_stem (parse_path fname)). str_isalnum u c) \<longrightarrow>
            (\<exists>tid. generate_topic_id u fname = Inr tid \<and> tid \<noteq> [] \<and> length tid \<le> 50 \<and>
               str_isalpha u (hd tid) \<and> last tid \<noteq> CHR ''-'' \<and>
               (str_isalpha u (hd (topic_candidate u fname)) \<longrightarrow>
                  set tid \<subseteq> {c \<in> set (str_lower u (path_stem (parse_path fname))). str_isalnum u c}
                              \<union> {CHR ''-''}) \<and>
               (\<not> str_isalpha u (hd (topic_candidate u fname)) \<longrightarrow>
                  hd tid = CHR ''v'' \<and>
                  set tid \<subseteq> {c \<in> set (str_lower u (path_stem (parse_path fname))). str_isalnum u c}
                              \<union> {CHR ''-''} \<union> set ''video-''))"
  proof
    assume "\<exists>c\<in>set (path_stem (parse_path fname)). str_isalnum u c"
    with assms have "topic_candidate u fname \<noteq> []" by (rule topic_candidate_nonempty)
    then obtain h rest where t: "topic_candidate u fname = h # rest"
      by (cases "topic_candidate u fname") auto
    define t1 where "t1 = (if str_isalpha u h then h # rest else ''video-'' @ h # rest)"
    define t2 where "t2 = (if length t1 > 50 then take 50 t1 else t1)"
    have g: "generate_topic_id u fname = Inr (strip ''-'' t2)"
      using t t1_def t2_def by (rule generate_topic_id_Cons)
    from prefixed_head [OF assms t1_def]
    have t1: "t1 \<noteq> []" "str_isalpha u (hd t1)" "str_isalpha u h \<longrightarrow> set t1 \<subseteq> set (h # rest)"
      "set t1 \<subseteq> set (h # rest) \<union> set ''video-''"
      by blast+
    from truncated_head [OF t1(1,2) t2_def]
    have t2: "t2 \<noteq> []" "str_isalpha u (hd t2)" "length t2 \<le> 50" "set t2 \<subseteq> set t1"
      by blast+
    from assms t2(2) have "hd t2 \<noteq> CHR ''-''" by (rule isalpha_not_hyphen)
    with t2(1) strip_hyphen_keeps_head [of t2]
    have s: "strip ''-'' t2 \<noteq> []" "hd (strip ''-'' t2) = hd t2" "last (strip ''-'' t2) \<noteq> CHR ''-''"
           "length (strip ''-'' t2) \<le> length t2" "set (strip ''-'' t2) \<subseteq> set t2"
      by blast+
    have c: "set (h # rest) \<subseteq> A" unfolding A_def using topic_candidate_set [of u fname] t by simp
    from s(4) t2(3) have len: "length (strip ''-'' t2) \<le> 50" by linarith
    from s(2) t2(2) have al: "str_isalpha u (hd (strip ''-'' t2))" by simp
    have hdc: "hd (topic_candidate u fname) = h" using t by simp
    have p1: "str_isalpha u (hd (topic_candidate u fname)) \<longrightarrow> set (strip ''-'' t2) \<subseteq> A"
      using t1(3) t2(4) s(5) c hdc by blast
    have hv: "\<not> str_isalpha u h \<Longrightarrow> hd t2 = CHR ''v''"
      unfolding t2_def t1_def by simp
    have p2: "\<not> str_isalpha u (hd (topic_candidate u fname)) \<longrightarrow>
                hd (strip ''-'' t2) = CHR ''v'' \<and> set (strip ''-'' t2) \<subseteq> A \<union> set ''video-''"
    proof
      assume "\<not> str_isalpha u (hd (topic_candidate u fname))"
      then have "\<not> str_isalpha u h" using hdc by simp
      then have "hd (strip ''-'' t2) = CHR ''v''" using hv s(2) by simp
      moreover have "set (strip ''-'' t2) \<subseteq> A \<union> set ''video-''"
        using t1(4) t2(4) s(5) c by blast
      ultimately show "hd (strip ''-'' t2) = CHR ''v'' \<and> set (strip ''-'' t2) \<subseteq> A \<union> set ''video-''"
        by (rule conjI)
    qed
    show "\<exists>tid. generate_topic_id u fname = Inr tid \<and> tid \<noteq> [] \<and> length tid \<le> 50 \<and>
               str_isalpha u (hd tid) \<and> last tid \<noteq> CHR ''-'' \<and>
               (str_isalpha u (hd (topic_candidate u fname)) \<longrightarrow>
                  set tid \<subseteq> {c \<in> set (str_lower u (path_stem (parse_path fname))). str_isalnum u c}
                              \<union> {CHR ''-''}) \<and>
               (\<not> str_isalpha u (hd (topic_candidate u fname)) \<longrightarrow>
                  hd tid = CHR ''v'' \<and>
                  set tid \<subseteq> {c \<in> set (str_lower u (path_stem (parse_path fname))). str_isalnum u c}
                              \<union> {CHR ''-''} \<union> set ''video-'')"
      using g s(1) len al s(3) p1 p2 unfolding A_def
      by (intro exI [of _ "strip ''-'' t2"] conjI)
  qed
next
  show "(\<forall>c\<in>set (path_stem (parse_path fname)). \<not> str_isalnum u c \<and> c \<notin> set '' -_.'') \<longrightarrow>
            generate_topic_id u fname = Inl (Exn ''IndexError'' ''string index out of range'')"
  proof
    assume "\<forall>c\<in>set (path_stem (parse_path fname)). \<not> str_isalnum u c \<and> c \<notin> set '' -_.''"
    with assms have "topic_candidate u fname = []" by (rule topic_candidate_empty)
    then show "generate_topic_id u fname = Inl (Exn ''IndexError'' ''string index out of range'')"
      unfolding generate_topic_id_def Let_def by (simp only: list.case)
  qed
qed

text \<open>
  The theorem on four file names, with the tables of the examples: a stem with a space
  and an upper-case letter, a stem with letters outside ASCII, a stem that begins with a
  digit, and a stem without any character that is kept.
\<close>

theorem generate_topic_id_valid_witness:
  "tables_ok demo_tables \<and>
   generate_topic_id demo_tables ''Clip 1.mp4'' = Inr ''clip-1'' \<and>
   path_stem (parse_path ([CHR 0xC9, CHR ''t'', CHR 0xE9] @ ''.mp4'')) = [CHR 0xC9, CHR ''t'', CHR 0xE9] \<and>
   str_isalnum demo_tables (CHR 0xC9) \<and>
   generate_topic_id demo_tables ([CHR 0xC9, CHR ''t'', CHR 0xE9] @ ''.mp4'') =
     Inr [CHR 0xE9, CHR ''t'', CHR 0xE9] \<and>
   generate_topic_id demo_tables ''2024.mp4'' = Inr ''video-2024'' \<and>
   generate_topic_id demo_tables ''#.mp4'' = Inl (Exn ''IndexError'' ''string index out of range'')"
proof -
  have "generate_topic_id demo_tables ''Clip 1.mp4'' = Inr ''clip-1''" by code_simp
  moreover have "path_stem (parse_path ([CHR 0xC9, CHR ''t'', CHR 0xE9] @ ''.mp4'')) =
      [CHR 0xC9, CHR ''t'', CHR 0xE9]" by code_simp
  moreover have "str_isalnum demo_tables (CHR 0xC9)" by code_simp
  moreover have "generate_topic_id demo_tables ([CHR 0xC9, CHR ''t'', CHR 0xE9] @ ''.mp4'') =
      Inr [CHR 0xE9, CHR ''t'', CHR 0xE9]" by code_simp
  moreover have "generate_topic_id demo_tables ''2024.mp4'' = Inr ''video-2024''" by code_simp
  moreover have "generate_topic_id demo_tables ''#.mp4'' =
      Inl (Exn ''IndexError'' ''string index out of range'')" by code_simp
  ultimately show ?thesis
    using generate_topic_id_valid [OF demo_tables_ok, of "[CHR 0xC9, CHR ''t'', CHR 0xE9] @ ''.mp4''"]
      demo_tables_ok
    by simp
qed

text \<open>
  The claim as worded (only lower-cased characters of the stem and hyphens) fails on
  \<^verbatim>\<open>1.mp4\<close>: the identifier is \<^verbatim>\<open>video-1\<close>.
\<close>

theorem generate_topic_id_prefix_counterexample:
  "path_stem (parse_path ''1.mp4'') = ''1'' \<and> str_isalnum demo_tables CHR ''1'' \<and>
   generate_topic_id demo_tables ''1.mp4'' = Inr ''video-1'' \<and>
   \<not> set ''video-1'' \<subseteq> set (str_lower demo_tables ''1'') \<union> {CHR ''-''}"
  by code_simp

section \<open>Properties of the acceptance check\<close>




section \<open>Media references after a collision\<close>

text \<open>
  Claim C1, evaluated on two files \<^verbatim>\<open>/r/a/clip.mp4\<close> and \<^verbatim>\<open>/r/b/clip.mp4\<close>.  The media map
  has the two keys \<^verbatim>\<open>clip.mp4\<close> and \<^verbatim>\<open>clip-2.mp4\<close>, and the second file is stored under
  \<^verbatim>\<open>clip-2.mp4\<close>; but the topic of the second file, \<^verbatim>\<open>clip-2.dita\<close>, still refers to
  \<^verbatim>\<open>../media/clip.mp4\<close>, the media of the first file.
\<close>

theorem renamed_media_reference_stale:
  "(case convert_many (video_registry demo_env demo_config) None ''2026-01-01''
           [Path True [''r'', ''a'', ''clip.mp4''], Path True [''r'', ''b'', ''clip.mp4'']] None of
      Inl e \<Rightarrow> False
    | Inr project \<Rightarrow>
        keys (videos project) = [''clip.mp4'', ''clip-2.mp4''] \<and>
        map_of (videos project) ''clip-2.mp4'' = Some ''/r/b/clip.mp4'' \<and>
        keys (topics project) = [''clip.dita'', ''clip-2.dita''] \<and>
        map (\<lambda>(k, el). (k, media_refs el)) (topics project) =
          [(''clip.dita'', [''../media/clip.mp4'']), (''clip-2.dita'', [''../media/clip.mp4''])])"
  by code_simp


section \<open>Lemmas about the store, the dictionaries and the loop\<close>

lemma update_fresh: "\<not> dict_in k d \<Longrightarrow> AList.update k v d = d @ [(k, v)]"
  by (induction d) (auto simp: dict_in_def)

lemma add_child_length [simp]: "length (add_child st parent) = length st"
  by (simp add: add_child_def)

lemma append_topicref_eq:
  "append_topicref st parent href rename_map f =
     add_child st parent @
     ref_nodes (length st)
       (''topics/'' @ (case map_of rename_map (basename href) of Some n \<Rightarrow> n | None \<Rightarrow> basename href))
       (path_stem f)"
  by (simp add: append_topicref_def SubElement_def add_child_def set_attr_def set_text_def
      new_node_def Let_def ref_nodes_def nth_append list_update_append)

lemma ensure_loop_None:
  "map_of cache (join ''/'' (path_accum @ [part])) = None \<Longrightarrow>
   ensure_loop st cache path_accum parent (part # rest) =
     ensure_loop (add_child st parent @ head_nodes (length st) part)
       (AList.update (join ''/'' (path_accum @ [part])) (length st) cache)
       (path_accum @ [part]) (length st) rest"
  by (simp add: SubElement_def add_child_def set_attr_def set_text_def new_node_def Let_def
      head_nodes_def nth_append list_update_append)

lemma ensure_loop_Some:
  "map_of cache (join ''/'' (path_accum @ [part])) = Some n \<Longrightarrow>
   ensure_loop st cache path_accum parent (part # rest) =
     ensure_loop st cache (path_accum @ [part]) n rest"
  by simp

subsection \<open>Dictionaries\<close>

lemma merge_dict_appends:
  "\<exists>ks. length ks = length src \<and> merge_dict src dst = dst @ zip ks (map snd src)"
proof (induction src arbitrary: dst)
  case Nil
  then show ?case by simp
next
  case (Cons kv rest)
  obtain k v where kv: "kv = (k, v)" by (cases kv)
  define k' where "k' = dedup_name k dst"
  have u: "AList.update k' v dst = dst @ [(k', v)]"
    unfolding k'_def by (rule update_fresh) (rule dedup_name_fresh)
  from Cons.IH [of "dst @ [(k', v)]"] obtain ks where
    ks: "length ks = length rest" "merge_dict rest (dst @ [(k', v)]) = (dst @ [(k', v)]) @ zip ks (map snd rest)"
    by blast
  have "merge_dict (kv # rest) dst = dst @ zip (k' # ks) (map snd (kv # rest))"
    using ks(2) u by (simp add: kv k'_def)
  moreover have "length (k' # ks) = length (kv # rest)" using ks(1) by simp
  ultimately show ?case by blast
qed

lemma merge_dict_values: "map snd (merge_dict src dst) = map snd dst @ map snd src"
proof -
  from merge_dict_appends [of src dst] obtain ks where
    "length ks = length src" "merge_dict src dst = dst @ zip ks (map snd src)" by blast
  then show ?thesis by simp
qed

lemma merge_dict_length: "length (merge_dict src dst) = length dst + length src"
  using arg_cong [OF merge_dict_values [of src dst], of length] by simp

lemma merge_dict_distinct: "distinct (keys dst) \<Longrightarrow> distinct (keys (merge_dict src dst))"
proof (induction src arbitrary: dst)
  case Nil
  then show ?case by simp
next
  case (Cons kv rest)
  obtain k v where kv: "kv = (k, v)" by (cases kv)
  from Cons.prems have "distinct (keys (AList.update (dedup_name k dst) v dst))"
    unfolding keys_def by (rule distinct_update)
  from Cons.IH [OF this] show ?case by (simp add: kv)
qed

lemma merge_topics_fst: "fst (merge_topics src (d, rm)) = merge_dict src d"
  by (induction src arbitrary: d rm) (auto simp: Let_def)

lemma dict_in_keys: "dict_in k d = (k \<in> set (keys d))"
  by (simp add: dict_in_def keys_def)

lemma dedup_loop_keys_cong:
  "keys d1 = keys d2 \<Longrightarrow> dedup_loop base ext d1 i = dedup_loop base ext d2 i"
proof (induction base ext d1 i rule: dedup_loop.induct)
  case (1 base ext used i)
  have m: "dict_in (candidate base ext i) used = dict_in (candidate base ext i) d2"
    using "1.prems" by (simp add: dict_in_keys)
  show ?case
  proof (cases "dict_in (candidate base ext i) used")
    case True
    from "1.IH" [OF True "1.prems"] True m show ?thesis
      by (subst dedup_loop.simps, subst (2) dedup_loop.simps) simp
  next
    case False
    with m show ?thesis
      by (subst dedup_loop.simps, subst (2) dedup_loop.simps) simp
  qed
qed

lemma dedup_name_keys_cong: "keys d1 = keys d2 \<Longrightarrow> dedup_name k d1 = dedup_name k d2"
  by (simp add: dedup_name_def dict_in_keys dedup_loop_keys_cong [of d1 d2] split: prod.splits)

lemma merge_dict_keys_cong:
  "keys s1 = keys s2 \<Longrightarrow> keys d1 = keys d2 \<Longrightarrow> keys (merge_dict s1 d1) = keys (merge_dict s2 d2)"
proof (induction s1 arbitrary: s2 d1 d2)
  case Nil
  then show ?case by (simp add: keys_def)
next
  case (Cons kv rest)
  obtain k v where kv: "kv = (k, v)" by (cases kv)
  from Cons.prems(1) kv obtain v2 rest2 where s2: "s2 = (k, v2) # rest2" "keys rest = keys rest2"
    by (cases s2) (auto simp: keys_def)
  have e: "dedup_name k d1 = dedup_name k d2" using Cons.prems(2) by (rule dedup_name_keys_cong)
  have "AList.update (dedup_name k d1) v d1 = d1 @ [(dedup_name k d1, v)]"
       "AList.update (dedup_name k d2) v2 d2 = d2 @ [(dedup_name k d2, v2)]"
    by (simp_all add: update_fresh dedup_name_fresh)
  then have "keys (AList.update (dedup_name k d1) v d1) = keys (AList.update (dedup_name k d2) v2 d2)"
    using Cons.prems(2) e by (simp add: keys_def)
  from Cons.IH [OF s2(2) this] show ?case by (simp add: kv s2(1))
qed

subsection \<open>One merge step and the loop\<close>

lemma merge_result_combined:
  assumes "merge_result root s f ctx = Inr s'"
  shows "topics (combined s') = merge_dict (topics ctx) (topics (combined s))"
    and "images (combined s') = merge_dict (images ctx) (images (combined s))"
    and "videos (combined s') = merge_dict (videos ctx) (videos (combined s))"
    and "video_info_map (combined s') = merge_dict (video_info_map ctx) (video_info_map (combined s))"
    and "metadata (combined s') = metadata (combined s)"
    and "source_plugin (combined s') = source_plugin (combined s)"
proof -
  obtain ct rm where m: "merge_topics (topics ctx) (topics (combined s), []) = (ct, rm)"
    by (cases "merge_topics (topics ctx) (topics (combined s), [])")
  then have ct: "ct = merge_dict (topics ctx) (topics (combined s))"
    using merge_topics_fst [of "topics ctx" "topics (combined s)" "[]"] by simp
  define c where "c = (combined s)
            \<lparr>topics := ct,
             images := merge_dict (images ctx) (images (combined s)),
             videos := merge_dict (videos ctx) (videos (combined s)),
             video_info_map := merge_dict (video_info_map ctx) (video_info_map (combined s))\<rparr>"
  have "combined s' = c"
    using assms m unfolding merge_result_def c_def
    by (auto simp: Let_def split: option.splits if_splits sum.splits prod.splits)
  then show "topics (combined s') = merge_dict (topics ctx) (topics (combined s))"
    and "images (combined s') = merge_dict (images ctx) (images (combined s))"
    and "videos (combined s') = merge_dict (videos ctx) (videos (combined s))"
    and "video_info_map (combined s') = merge_dict (video_info_map ctx) (video_info_map (combined s))"
    and "metadata (combined s') = metadata (combined s)"
    and "source_plugin (combined s') = source_plugin (combined s)"
    by (simp_all add: c_def ct)
qed

lemma merge_result_map:
  assumes "merge_result root s f ctx = Inr s'"
  shows "((pick_href ctx = None \<or> pick_href ctx = Some []) \<and> map_el s' = map_el s \<and>
          folder_nodes s' = folder_nodes s) \<or>
         (\<exists>href st cache parent. pick_href ctx = Some href \<and> href \<noteq> [] \<and>
            target_parent root f (map_el s) (folder_nodes s) = Inr (st, cache, parent) \<and>
            map_el s' = append_topicref st parent href
                          (snd (merge_topics (topics ctx) (topics (combined s), []))) f \<and>
            folder_nodes s' = cache)"
  using assms unfolding merge_result_def
  by (auto simp: Let_def split: option.splits if_splits sum.splits prod.splits)

lemma settings_ok_initial: "settings_ok (initial_state plugin_id today)"
  by (simp add: settings_ok_def initial_state_def conversion_settings_def batch_settings_def DitaContext_def)

lemma settings_ok_merge: "settings_ok s \<Longrightarrow> merge_result root s f ctx = Inr s' \<Longrightarrow> settings_ok s'"
  using merge_result_combined(5) [of root s f ctx s']
  by (simp add: settings_ok_def conversion_settings_def)

lemma conversions_Cons:
  "conversions reg (f # fs) =
     (case reg f of None \<Rightarrow> [] | Some h \<Rightarrow> (case h f batch_settings of Inl e \<Rightarrow> [] | Inr ctx \<Rightarrow> [(f, ctx)]))
     @ conversions reg fs"
  by (simp add: conversions_def)

lemma convert_loop_conversions:
  "settings_ok s \<Longrightarrow> convert_loop reg root s files = Inr s' \<Longrightarrow>
   merge_all root s (conversions reg files) = Inr s' \<and>
   map fst (conversions reg files) = accepted reg files"
proof (induction files arbitrary: s)
  case Nil
  then show ?case by (simp add: conversions_def accepted_def)
next
  case (Cons f fs)
  from Cons.prems(2) obtain s1 where
    p: "process_file reg root s f = Inr s1" and l: "convert_loop reg root s1 fs = Inr s'"
    by (auto split: sum.splits)
  show ?case
  proof (cases "reg f")
    case None
    with p have "s1 = s" by (simp add: process_file_def)
    with Cons.IH [OF Cons.prems(1)] l None show ?thesis
      by (simp add: conversions_Cons accepted_def)
  next
    case (Some h)
    from Cons.prems(1) have cs: "conversion_settings (combined s) = batch_settings"
      by (simp add: settings_ok_def)
    from p Some cs obtain ctx where
      h: "h f batch_settings = Inr ctx" and m: "merge_result root s f ctx = Inr s1"
      by (auto simp: process_file_def split: sum.splits)
    from settings_ok_merge [OF Cons.prems(1) m] have "settings_ok s1" .
    from Cons.IH [OF this l] Some h m show ?thesis
      by (simp add: conversions_Cons accepted_def)
  qed
qed

lemma merge_all_induct:
  assumes "merge_all root s cs = Inr s'" and "Inv s done"
    and step: "\<And>s f ctx s1 done. Inv s done \<Longrightarrow> (f, ctx) \<in> set cs \<Longrightarrow>
                 merge_result root s f ctx = Inr s1 \<Longrightarrow> Inv s1 (done @ [(f, ctx)])"
  shows "Inv s' (done @ cs)"
  using assms
proof (induction cs arbitrary: s "done")
  case Nil
  then show ?case by simp
next
  case (Cons c rest)
  obtain f ctx where c: "c = (f, ctx)" by (cases c)
  from Cons.prems(1) c obtain s1 where
    m: "merge_result root s f ctx = Inr s1" and r: "merge_all root s1 rest = Inr s'"
    by (auto split: sum.splits)
  have i1: "Inv s1 (done @ [(f, ctx)])"
    by (rule Cons.prems(3) [OF Cons.prems(2) _ m]) (simp add: c)
  have "Inv s' ((done @ [(f, ctx)]) @ rest)"
    using r i1
  proof (rule Cons.IH)
    fix s f ctx s1 "done"
    assume "Inv s done" "(f, ctx) \<in> set rest" "merge_result root s f ctx = Inr s1"
    then show "Inv s1 (done @ [(f, ctx)])" by (intro Cons.prems(3)) simp_all
  qed
  then show ?case by (simp add: c)
qed

lemma convert_many_Inr:
  assumes "convert_many reg plugin_id today files root = Inr project"
  obtains s' where "merge_all root (initial_state plugin_id today) (conversions reg files) = Inr s'"
    and "map fst (conversions reg files) = accepted reg files"
    and "project = (combined s')\<lparr>ditamap_root := Some (map_el s')\<rparr>"
proof -
  from assms obtain s' where
    l: "convert_loop reg root (initial_state plugin_id today) files = Inr s'"
    and p: "project = (combined s')\<lparr>ditamap_root := Some (map_el s')\<rparr>"
    by (auto simp: convert_many_def split: sum.splits)
  from convert_loop_conversions [OF settings_ok_initial l] p that show ?thesis by blast
qed

section \<open>Per-video metadata\<close>

lemma merge_dict_append: "merge_dict (xs @ ys) dst = merge_dict ys (merge_dict xs dst)"
  by (induction xs arbitrary: dst) auto

lemma values_concat:
  "map snd (concat (map (\<lambda>(f, ctx). g ctx) cs)) = concat (map (\<lambda>(f, ctx). map snd (g ctx)) cs)"
  by (induction cs) auto

lemma keys_concat:
  "\<forall>(f, ctx) \<in> set cs. keys (a ctx) = keys (b ctx) \<Longrightarrow>
   keys (concat (map (\<lambda>(f, ctx). a ctx) cs)) = keys (concat (map (\<lambda>(f, ctx). b ctx) cs))"
  by (induction cs) (auto simp: keys_def)

lemma concat_empty:
  "\<forall>(f, ctx) \<in> set cs. g ctx = [] \<Longrightarrow> concat (map (\<lambda>(f, ctx). g ctx) cs) = []"
  by (induction cs) auto

lemma concat_singletons:
  "\<forall>(f, ctx) \<in> set cs. length (g ctx) = 1 \<Longrightarrow>
   length (concat (map (\<lambda>(f, ctx). g ctx) cs)) = length cs"
  by (induction cs) auto

text \<open>
  The context that the video handler returns has one media entry and no per-video
  metadata: nothing in the builder or the handler writes \<^verbatim>\<open>video_info_map\<close>.
\<close>

lemma convert_to_dita_media:
  assumes "convert_to_dita ev cfg f md = Inr ctx"
  shows "video_info_map ctx = []" and "length (videos ctx) = 1"
proof -
  from assms have b: "convert_body ev cfg f md = Inr ctx"
    by (auto simp: convert_to_dita_def split: option.splits sum.splits)
  then obtain vi cx where
    c: "create_dita_context ev cfg md f vi = Inr cx"
    and x: "ctx = cx\<lparr>topics := map (\<lambda>(fname, topic_el).
                        (fname, retitle (path_stem (parse_path (filename vi))) topic_el))
                        (topics cx)\<rparr>"
    by (auto simp: convert_body_def split: if_splits sum.splits)
  from c have "video_info_map cx = [] \<and> length (videos cx) = 1"
    by (auto simp: create_dita_context_def Let_def DitaContext_def split: sum.splits)
  with x show "video_info_map ctx = []" and "length (videos ctx) = 1" by simp_all
qed

lemma video_conversions_media:
  "\<forall>(f, ctx) \<in> set (conversions (video_registry ev cfg) files).
     video_info_map ctx = [] \<and> length (videos ctx) = 1"
proof -
  have "\<And>f ctx. (f, ctx) \<in> set (conversions (video_registry ev cfg) files) \<Longrightarrow>
          video_info_map ctx = [] \<and> length (videos ctx) = 1"
  proof -
    fix f ctx assume "(f, ctx) \<in> set (conversions (video_registry ev cfg) files)"
    then have "convert_to_dita ev cfg f batch_settings = Inr ctx"
      by (auto simp: conversions_def video_registry_def split: if_splits option.splits sum.splits)
    then show "video_info_map ctx = [] \<and> length (videos ctx) = 1"
      using convert_to_dita_media by blast
  qed
  then show ?thesis by blast
qed

text \<open>
  Claim C7, as the code has it.  The per-video metadata of the converted files is merged
  into the index of the project in input order, each key de-duplicated against the keys
  that the index already has: the index is the merge of the metadata of all conversions,
  its values are those of the conversions in input order, and its keys are pairwise
  distinct.  The media map is the same merge of the media of the conversions, in its own
  name space: a key of the index is renamed when it collides in the index, whatever
  happened to the media key.  When every converted file brings metadata under exactly the
  keys of its videos, the two name spaces stay aligned and the index and the media map
  have the same keys in the same order, so the metadata of a file is stored under the
  final key of its media.  The video handler of the plugin returns no per-video metadata:
  in its runs the index is empty, and the media map has one entry for each accepted file.
\<close>

theorem aux_metadata_rekeyed:
  assumes "convert_many reg plugin_id today files root = Inr project"
  shows "video_info_map project =
           merge_dict (concat (map (\<lambda>(f, ctx). video_info_map ctx) (conversions reg files))) [] \<and>
         videos project =
           merge_dict (concat (map (\<lambda>(f, ctx). videos ctx) (conversions reg files))) [] \<and>
         map snd (video_info_map project) =
           concat (map (\<lambda>(f, ctx). map snd (video_info_map ctx)) (conversions reg files)) \<and>
         distinct (keys (video_info_map project)) \<and>
         ((\<forall>(f, ctx) \<in> set (conversions reg files). keys (video_info_map ctx) = keys (videos ctx)) \<longrightarrow>
            keys (video_info_map project) = keys (videos project)) \<and>
         (reg = video_registry ev cfg \<longrightarrow>
            video_info_map project = [] \<and> length (videos project) = length (accepted reg files))"
proof -
  from assms obtain s' where
    m: "merge_all root (initial_state plugin_id today) (conversions reg files) = Inr s'"
    and a: "map fst (conversions reg files) = accepted reg files"
    and p: "project = (combined s')\<lparr>ditamap_root := Some (map_el s')\<rparr>"
    by (rule convert_many_Inr)
  define cs where "cs = conversions reg files"
  define Inv where "Inv = (\<lambda>(s :: loop_state) (done :: (path \<times> xml dita_context) list).
      video_info_map (combined s) = merge_dict (concat (map (\<lambda>(f, ctx). video_info_map ctx) done)) [] \<and>
      videos (combined s) = merge_dict (concat (map (\<lambda>(f, ctx). videos ctx) done)) [])"
  have i0: "Inv (initial_state plugin_id today) []"
    by (simp add: Inv_def initial_state_def DitaContext_def)
  have "Inv s' ([] @ cs)"
    using m [folded cs_def] i0
  proof (rule merge_all_induct)
    fix s f ctx s1 and "done" :: "(path \<times> xml dita_context) list"
    assume i: "Inv s done" and r: "merge_result root s f ctx = Inr s1"
    show "Inv s1 (done @ [(f, ctx)])"
      using merge_result_combined(3,4) [OF r] i by (simp add: Inv_def merge_dict_append)
  qed
  then have i: "video_info_map project = merge_dict (concat (map (\<lambda>(f, ctx). video_info_map ctx) cs)) []"
    and v: "videos project = merge_dict (concat (map (\<lambda>(f, ctx). videos ctx) cs)) []"
    by (simp_all add: Inv_def p)
  have vals: "map snd (video_info_map project) = concat (map (\<lambda>(f, ctx). map snd (video_info_map ctx)) cs)"
    unfolding i by (simp add: merge_dict_values values_concat)
  have dist: "distinct (keys (video_info_map project))"
    unfolding i by (rule merge_dict_distinct) (simp add: keys_def)
  have al: "(\<forall>(f, ctx) \<in> set cs. keys (video_info_map ctx) = keys (videos ctx)) \<longrightarrow>
            keys (video_info_map project) = keys (videos project)"
  proof
    assume "\<forall>(f, ctx) \<in> set cs. keys (video_info_map ctx) = keys (videos ctx)"
    then have "keys (concat (map (\<lambda>(f, ctx). video_info_map ctx) cs)) =
               keys (concat (map (\<lambda>(f, ctx). videos ctx) cs))"
      by (rule keys_concat)
    then show "keys (video_info_map project) = keys (videos project)"
      unfolding i v by (rule merge_dict_keys_cong) (simp add: keys_def)
  qed
  have real: "reg = video_registry ev cfg \<longrightarrow>
            video_info_map project = [] \<and> length (videos project) = length (accepted reg files)"
  proof
    assume reg: "reg = video_registry ev cfg"
    have h: "\<forall>(f, ctx) \<in> set cs. video_info_map ctx = [] \<and> length (videos ctx) = 1"
      unfolding cs_def reg by (rule video_conversions_media)
    then have "\<forall>(f, ctx) \<in> set cs. video_info_map ctx = []" by blast
    then have e: "concat (map (\<lambda>(f, ctx). video_info_map ctx) cs) = []" by (rule concat_empty)
    from h have "\<forall>(f, ctx) \<in> set cs. length (videos ctx) = 1" by blast
    then have "length (concat (map (\<lambda>(f, ctx). videos ctx) cs)) = length cs"
      by (rule concat_singletons)
    moreover have "length cs = length (accepted reg files)"
      using arg_cong [OF a, of length] by (simp add: cs_def)
    ultimately have lv: "length (videos project) = length (accepted reg files)"
      unfolding v by (simp add: merge_dict_length)
    have ie: "video_info_map project = []" unfolding i e by (rule merge_dict.simps(1))
    from ie lv show "video_info_map project = [] \<and> length (videos project) = length (accepted reg files)"
      by (rule conjI)
  qed
  from i v vals dist al real show ?thesis unfolding cs_def by blast
qed

text \<open>
  The theorem on two files named \<^verbatim>\<open>clip.mp4\<close>: converted by the video handler, whose runs
  leave the index empty, and converted by a handler that brings metadata for every file
  under the key of its video.
\<close>

theorem aux_metadata_rekeyed_witness:
  "(case convert_many (video_registry demo_env demo_config) None ''2026-01-01''
           [Path True [''r'', ''a'', ''clip.mp4''], Path True [''r'', ''b'', ''clip.mp4'']] None of
      Inl e \<Rightarrow> False
    | Inr project \<Rightarrow>
        keys (videos project) = [''clip.mp4'', ''clip-2.mp4''] \<and> video_info_map project = []) \<and>
   (case convert_many (\<lambda>f. Some (stub_handler info_for_all)) None ''2026-01-01''
           [Path True [''r'', ''a'', ''clip.mp4''], Path True [''r'', ''b'', ''clip.mp4'']] None of
      Inl e \<Rightarrow> False
    | Inr project \<Rightarrow>
        keys (video_info_map project) = [''clip.mp4'', ''clip-2.mp4''] \<and>
        keys (videos project) = [''clip.mp4'', ''clip-2.mp4''] \<and>
        map_of (videos project) ''clip-2.mp4'' = Some ''/r/b/clip.mp4'' \<and>
        map_of (video_info_map project) ''clip-2.mp4'' = Some [(''source'', ''/r/b/clip.mp4'')])"
proof -
  let ?video = "video_registry demo_env demo_config"
  let ?reg = "\<lambda>f. Some (stub_handler info_for_all)"
  let ?files = "[Path True [''r'', ''a'', ''clip.mp4''], Path True [''r'', ''b'', ''clip.mp4'']]"
  obtain result where q: "convert_many ?video None ''2026-01-01'' ?files None = Inr result"
    and w: "keys (videos result) = [''clip.mp4'', ''clip-2.mp4'']"
  proof -
    have "case convert_many ?video None ''2026-01-01'' ?files None of
            Inl e \<Rightarrow> False
          | Inr result \<Rightarrow> keys (videos result) = [''clip.mp4'', ''clip-2.mp4'']"
      by code_simp
    with that show ?thesis by (auto split: sum.splits)
  qed
  obtain project where r: "convert_many ?reg None ''2026-01-01'' ?files None = Inr project"
    and v: "keys (videos project) = [''clip.mp4'', ''clip-2.mp4'']"
       "map_of (videos project) ''clip-2.mp4'' = Some ''/r/b/clip.mp4''"
       "map_of (video_info_map project) ''clip-2.mp4'' = Some [(''source'', ''/r/b/clip.mp4'')]"
  proof -
    have "case convert_many ?reg None ''2026-01-01'' ?files None of
            Inl e \<Rightarrow> False
          | Inr project \<Rightarrow>
              keys (videos project) = [''clip.mp4'', ''clip-2.mp4''] \<and>
              map_of (videos project) ''clip-2.mp4'' = Some ''/r/b/clip.mp4'' \<and>
              map_of (video_info_map project) ''clip-2.mp4'' = Some [(''source'', ''/r/b/clip.mp4'')]"
      by code_simp
    with that show ?thesis by (auto split: sum.splits)
  qed
  have h: "\<forall>(f, ctx) \<in> set (conversions ?reg ?files). keys (video_info_map ctx) = keys (videos ctx)"
    by (simp add: conversions_def stub_handler_def info_for_all_def keys_def DitaContext_def)
  from aux_metadata_rekeyed [OF q, where ev = demo_env and cfg = demo_config]
  have "video_info_map result = []" by blast
  moreover from aux_metadata_rekeyed [OF r] h
  have "keys (video_info_map project) = keys (videos project)" by blast
  ultimately show ?thesis using q w r v by simp
qed

text \<open>
  The claim as worded fails for a handler of the registry that brings metadata for some
  files only.  When only the second of two files named \<^verbatim>\<open>clip.mp4\<close> brings metadata, its
  media is stored under \<^verbatim>\<open>clip-2.mp4\<close> and its metadata under \<^verbatim>\<open>clip.mp4\<close>, the final key of
  the media of the first file.
\<close>

theorem aux_metadata_key_counterexample:
  "(case convert_many (\<lambda>f. Some (stub_handler info_for_b)) None ''2026-01-01''
           [Path True [''r'', ''a'', ''clip.mp4''], Path True [''r'', ''b'', ''clip.mp4'']] None of
      Inl e \<Rightarrow> False
    | Inr project \<Rightarrow>
        keys (videos project) = [''clip.mp4'', ''clip-2.mp4''] \<and>
        map_of (videos project) ''clip.mp4'' = Some ''/r/a/clip.mp4'' \<and>
        map_of (videos project) ''clip-2.mp4'' = Some ''/r/b/clip.mp4'' \<and>
        video_info_map project = [(''clip.mp4'', [(''duration'', ''0:10'')])] \<and>
        map_of (video_info_map project) ''clip-2.mp4'' = None)"
  by code_simp

section \<open>Lemmas about references and the example batch\<close>

lemma tagged_add_child: "tagged (add_child st p) = tagged st"
proof (cases "p < length st")
  case True
  have "tagged (add_child st p) = (tagged st)[p := (tagged st) ! p]"
    using True by (simp add: tagged_def add_child_def map_update)
  then show ?thesis by simp
next
  case False
  then show ?thesis by (simp add: add_child_def list_update_beyond)
qed

lemma reference_targets_tagged:
  "reference_targets st =
     map (\<lambda>p. map_of (snd p) ''href'') (filter (\<lambda>p. fst p = ''topicref'') (tagged st))"
  by (simp add: reference_targets_def tagged_def filter_map comp_def)

lemma reference_targets_add_child: "reference_targets (add_child st p) = reference_targets st"
  by (simp add: reference_targets_tagged tagged_add_child)

lemma reference_targets_append:
  "reference_targets (a @ b) = reference_targets a @ reference_targets b"
  by (simp add: reference_targets_def)

lemma reference_targets_ref_nodes: "reference_targets (ref_nodes n target label) = [Some target]"
  by (simp add: reference_targets_def ref_nodes_def)

lemma reference_targets_head_nodes: "reference_targets (head_nodes n label) = []"
  by (simp add: reference_targets_def head_nodes_def)


lemma ensure_loop_refs:
  "ensure_loop st cache acc parent ps = (st', cache', n) \<Longrightarrow>
   reference_targets st' = reference_targets st"
proof (induction ps arbitrary: st cache acc parent)
  case Nil
  then show ?case by simp
next
  case (Cons part rest)
  show ?case
  proof (cases "map_of cache (join ''/'' (acc @ [part]))")
    case None
    from Cons.prems have "ensure_loop (add_child st parent @ head_nodes (length st) part)
       (AList.update (join ''/'' (acc @ [part])) (length st) cache)
       (acc @ [part]) (length st) rest = (st', cache', n)"
      by (simp only: ensure_loop_None [OF None])
    from Cons.IH [OF this] show ?thesis
      by (simp add: reference_targets_append reference_targets_add_child reference_targets_head_nodes)
  next
    case (Some k)
    from Cons.prems have "ensure_loop st cache (acc @ [part]) k rest = (st', cache', n)"
      by (simp only: ensure_loop_Some [OF Some])
    from Cons.IH [OF this] show ?thesis .
  qed
qed

lemma target_parent_refs:
  assumes "target_parent root f st cache = Inr (st', cache', p)"
  shows "reference_targets st' = reference_targets st"
proof (cases root)
  case None
  with assms show ?thesis by (simp add: target_parent_def)
next
  case (Some r)
  with assms obtain rel_file where rf: "relative_to f r = Inr rel_file"
    by (auto simp: target_parent_def split: sum.splits)
  define rel_key where "rel_key = (if path_str (path_parent rel_file) = ''.'' then [] else path_str (path_parent rel_file))"
  show ?thesis
  proof (cases "rel_key = []")
    case True
    with assms Some rf show ?thesis by (simp add: target_parent_def rel_key_def Let_def)
  next
    case False
    with assms Some rf have e: "ensure_folder_nodes st 0 cache rel_key = (st', cache', p)"
      by (simp add: target_parent_def rel_key_def Let_def)
    show ?thesis
    proof (cases "map_of cache rel_key")
      case None
      with e show ?thesis by (auto simp: ensure_folder_nodes_def dest: ensure_loop_refs)
    next
      case (Some k)
      with e show ?thesis by (simp add: ensure_folder_nodes_def)
    qed
  qed
qed

lemma target_parent_flat: "target_parent None f st cache = Inr (st, cache, 0)"
  by (simp add: target_parent_def)

lemma pick_href_topics:
  assumes "topics ctx \<noteq> []"
  shows "\<exists>href. pick_href ctx = Some href \<and> href \<noteq> []"
  using assms unfolding pick_href_def Let_def
  by (auto split: option.splits)

lemma merge_result_attach:
  assumes "merge_result root s f ctx = Inr s'" and "topics ctx \<noteq> []"
  obtains href st cache parent where "pick_href ctx = Some href" and "href \<noteq> []"
    and "target_parent root f (map_el s) (folder_nodes s) = Inr (st, cache, parent)"
    and "map_el s' = append_topicref st parent href
                       (snd (merge_topics (topics ctx) (topics (combined s), []))) f"
    and "folder_nodes s' = cache"
  using merge_result_map [OF assms(1)] pick_href_topics [OF assms(2)] by auto



lemma append_topicref_single:
  assumes "basename href = t"
  shows "append_topicref st parent href (snd (merge_topics [(t, el)] (d, []))) f =
           add_child st parent @ ref_nodes (length st) (''topics/'' @ dedup_name t d) (path_stem f)"
  using assms by (auto simp: append_topicref_eq Let_def update_fresh dedup_name_fresh)

lemma wellformed_resultD:
  assumes "wellformed_result ctx"
  shows "\<exists>tname el href. topics ctx = [(tname, el)] \<and> pick_href ctx = Some href \<and>
           basename href = tname"
  using assms unfolding wellformed_result_def
  by (auto split: list.splits prod.splits option.splits)



lemma ref_at_nodes:
  assumes "ref_at st i label"
  obtains target where "i + 2 < length st"
    and "st ! i = ref_nodes i target label ! 0"
    and "st ! (i + 1) = ref_nodes i target label ! 1"
    and "st ! (i + 2) = ref_nodes i target label ! 2"
proof -
  from assms obtain target where t: "take 3 (drop i st) = ref_nodes i target label"
    by (auto simp: ref_at_def)
  then have "length (take 3 (drop i st)) = 3" by (simp add: ref_nodes_def)
  then have l: "i + 2 < length st" by simp
  have "\<And>j. j < 3 \<Longrightarrow> st ! (i + j) = ref_nodes i target label ! j"
  proof -
    fix j :: nat assume j: "j < 3"
    have "take 3 (drop i st) ! j = st ! (i + j)" using j l by simp
    with t show "st ! (i + j) = ref_nodes i target label ! j" by simp
  qed
  from this [of 0] this [of 1] this [of 2] l that show ?thesis by simp
qed

lemma ref_at_label:
  assumes "ref_at st i label"
  shows "ntag (st ! i) = ''topicref'' \<and> navtitle_of st i = Some label"
proof -
  from assms obtain target where "i + 2 < length st"
    and "st ! i = ref_nodes i target label ! 0"
    and "st ! (i + 1) = ref_nodes i target label ! 1"
    and "st ! (i + 2) = ref_nodes i target label ! 2"
    by (rule ref_at_nodes)
  then show ?thesis
    by (simp add: ref_nodes_def navtitle_of_def child_with_tag_def)
qed

lemma ref_at_grow:
  assumes "ref_at st i label"
  shows "ref_at (add_child st 0 @ new) i label"
proof -
  from assms obtain target where i: "0 < i" and t: "take 3 (drop i st) = ref_nodes i target label"
    by (auto simp: ref_at_def)
  from t have "length (take 3 (drop i st)) = 3" by (simp add: ref_nodes_def)
  then have l: "i + 3 \<le> length st" by simp
  have "drop i (add_child st 0) = drop i st"
    using i by (simp add: add_child_def drop_update_cancel)
  then have "take 3 (drop i (add_child st 0 @ new)) = take 3 (drop i st)"
    using l by simp
  with i t show ?thesis by (auto simp: ref_at_def)
qed

lemma ref_at_new:
  assumes "st \<noteq> []"
  shows "ref_at (add_child st 0 @ ref_nodes (length st) target label) (length st) label"
  using assms by (auto simp: ref_at_def ref_nodes_def)

lemma root_after_append:
  assumes "st \<noteq> []"
  shows "(add_child st 0 @ new) \<noteq> [] \<and> ntag ((add_child st 0 @ new) ! 0) = ntag (st ! 0) \<and>
         nchildren ((add_child st 0 @ new) ! 0) = nchildren (st ! 0) @ [length st]"
  using assms by (cases st) (simp_all add: add_child_def)


lemma demo_run:
  obtains project where
    "convert_many (video_registry demo_env demo_config) None ''2026-01-01'' demo_files None = Inr project"
proof -
  have "case convert_many (video_registry demo_env demo_config) None ''2026-01-01'' demo_files None of
          Inl e \<Rightarrow> False | Inr project \<Rightarrow> True"
    by code_simp
  with that show ?thesis by (auto split: sum.splits)
qed

lemma demo_accepted:
  "accepted (video_registry demo_env demo_config) demo_files =
     [Path True [''r'', ''a.mp4''], Path True [''r'', ''sub'', ''a.mp4'']]"
  by code_simp



lemma demo_wellformed:
  "\<forall>(f, ctx) \<in> set (conversions (video_registry demo_env demo_config) demo_files).
     wellformed_result ctx"
  by code_simp

lemma demo_topics_nonempty:
  "\<forall>(f, ctx) \<in> set (conversions (video_registry demo_env demo_config) demo_files).
     topics ctx \<noteq> []"
  by code_simp

lemma demo_run_folder:
  obtains project where
    "convert_many (video_registry demo_env demo_config) None ''2026-01-01'' demo_files
       (Some (Path True [''r''])) = Inr project"
    and "keys (topics project) = [''a.dita'', ''a-2.dita'']"
proof -
  have "case convert_many (video_registry demo_env demo_config) None ''2026-01-01'' demo_files
               (Some (Path True [''r''])) of
          Inl e \<Rightarrow> False | Inr project \<Rightarrow> keys (topics project) = [''a.dita'', ''a-2.dita'']"
    by code_simp
  with that show ?thesis by (auto split: sum.splits)
qed



lemma convert_loop_append:
  "convert_loop reg root s (pre @ rest) =
     (case convert_loop reg root s pre of Inl e \<Rightarrow> Inl e | Inr s1 \<Rightarrow> convert_loop reg root s1 rest)"
  by (induction pre arbitrary: s) (auto split: sum.splits)

lemma settings_ok_process:
  assumes "settings_ok s" and "process_file reg root s f = Inr s'"
  shows "settings_ok s'"
proof (cases "reg f")
  case None
  with assms show ?thesis by (simp add: process_file_def)
next
  case (Some h)
  with assms(2) obtain ctx where "merge_result root s f ctx = Inr s'"
    by (auto simp: process_file_def split: sum.splits)
  with assms(1) show ?thesis by (rule settings_ok_merge)
qed

lemma settings_ok_loop:
  "settings_ok s \<Longrightarrow> convert_loop reg root s fs = Inr s' \<Longrightarrow> settings_ok s'"
proof (induction fs arbitrary: s)
  case Nil
  then show ?case by simp
next
  case (Cons f fs)
  from Cons.prems(2) obtain s1 where
    p: "process_file reg root s f = Inr s1" and l: "convert_loop reg root s1 fs = Inr s'"
    by (auto split: sum.splits)
  from settings_ok_process [OF Cons.prems(1) p] l show ?case by (rule Cons.IH)
qed


section \<open>Unsupported files\<close>



section \<open>Reference integrity\<close>

text \<open>
  Claim C2.  In a successful run whose conversion results are well formed, the reference
  nodes of the map, in the order of their creation, point at the keys of the topics map
  in order, and the topics stored under these keys are the topics of the converted files
  in input order: the reference of a file names the key, renamed or not, under which the
  topic of that file is stored.  The keys are distinct, and the target of every reference
  node is a key of the topics map.
\<close>

theorem references_resolve:
  assumes "convert_many reg plugin_id today files root = Inr project"
    and "\<forall>(f, ctx) \<in> set (conversions reg files). wellformed_result ctx"
  shows "\<exists>st. ditamap_root project = Some st \<and>
           reference_targets st = map (\<lambda>k. Some (''topics/'' @ k)) (keys (topics project)) \<and>
           map snd (topics project) = map (\<lambda>(f, ctx). snd (hd (topics ctx))) (conversions reg files) \<and>
           distinct (keys (topics project)) \<and>
           (\<forall>n \<in> set st. ntag n = ''topicref'' \<longrightarrow>
              (\<exists>k. dict_in k (topics project) \<and> map_of (nattrib n) ''href'' = Some (''topics/'' @ k)))"
proof -
  from assms(1) obtain s' where
    m: "merge_all root (initial_state plugin_id today) (conversions reg files) = Inr s'"
    and p: "project = (combined s')\<lparr>ditamap_root := Some (map_el s')\<rparr>"
    by (rule convert_many_Inr)
  define Inv where "Inv = (\<lambda>(s :: loop_state) (done :: (path \<times> xml dita_context) list).
      reference_targets (map_el s) = map (\<lambda>k. Some (''topics/'' @ k)) (keys (topics (combined s))) \<and>
      map snd (topics (combined s)) = map (\<lambda>(f, ctx). snd (hd (topics ctx))) done \<and>
      distinct (keys (topics (combined s))))"
  have i0: "Inv (initial_state plugin_id today) []"
    by (simp add: Inv_def initial_state_def DitaContext_def reference_targets_def new_node_def keys_def)
  have "Inv s' ([] @ conversions reg files)"
    using m i0
  proof (rule merge_all_induct)
    fix s f ctx s1 and "done" :: "(path \<times> xml dita_context) list"
    assume i: "Inv s done" and mem: "(f, ctx) \<in> set (conversions reg files)"
      and r: "merge_result root s f ctx = Inr s1"
    from mem assms(2) have "wellformed_result ctx" by blast
    from wellformed_resultD [OF this] obtain t el href where
      w: "topics ctx = [(t, el)]" "pick_href ctx = Some href" "basename href = t"
      by blast
    define d where "d = topics (combined s)"
    from w(1) have ne: "topics ctx \<noteq> []" by simp
    from r ne obtain href' st cache parent where
      h: "pick_href ctx = Some href'"
      and tp: "target_parent root f (map_el s) (folder_nodes s) = Inr (st, cache, parent)"
      and e: "map_el s1 = append_topicref st parent href'
                       (snd (merge_topics (topics ctx) (topics (combined s), []))) f"
      by (rule merge_result_attach)
    from h w(2) have hh: "href' = href" by simp
    have tp1: "topics (combined s1) = d @ [(dedup_name t d, el)]"
      using merge_result_combined(1) [OF r] w(1)
      by (simp add: update_fresh dedup_name_fresh d_def)
    have e1: "map_el s1 = add_child st parent @
                ref_nodes (length st) (''topics/'' @ dedup_name t d) (path_stem f)"
      using e w(1) append_topicref_single [OF w(3), of st parent el d f] by (simp add: hh d_def)
    have "reference_targets (map_el s1) =
            reference_targets (map_el s) @ [Some (''topics/'' @ dedup_name t d)]"
      using target_parent_refs [OF tp]
      by (simp add: e1 reference_targets_append reference_targets_add_child
          reference_targets_ref_nodes)
    then have a: "reference_targets (map_el s1) =
            map (\<lambda>k. Some (''topics/'' @ k)) (keys (topics (combined s1)))"
      using i by (simp add: Inv_def tp1 keys_def d_def)
    have b: "map snd (topics (combined s1)) = map (\<lambda>(f, ctx). snd (hd (topics ctx))) (done @ [(f, ctx)])"
      using i w(1) by (simp add: Inv_def tp1 d_def)
    have c: "distinct (keys (topics (combined s1)))"
      using merge_result_combined(1) [OF r] i merge_dict_distinct [of "topics (combined s)" "topics ctx"]
      by (simp add: Inv_def)
    from a b c show "Inv s1 (done @ [(f, ctx)])" by (simp add: Inv_def)
  qed
  then have inv: "reference_targets (map_el s') = map (\<lambda>k. Some (''topics/'' @ k)) (keys (topics project))"
    "map snd (topics project) = map (\<lambda>(f, ctx). snd (hd (topics ctx))) (conversions reg files)"
    "distinct (keys (topics project))"
    by (simp_all add: Inv_def p)
  have "\<forall>n \<in> set (map_el s'). ntag n = ''topicref'' \<longrightarrow>
          (\<exists>k. dict_in k (topics project) \<and> map_of (nattrib n) ''href'' = Some (''topics/'' @ k))"
  proof (intro ballI impI)
    fix n assume "n \<in> set (map_el s')" "ntag n = ''topicref''"
    then have "map_of (nattrib n) ''href'' \<in> set (reference_targets (map_el s'))"
      by (auto simp: reference_targets_def)
    with inv(1) obtain k where "k \<in> set (keys (topics project))"
      "map_of (nattrib n) ''href'' = Some (''topics/'' @ k)" by auto
    then show "\<exists>k. dict_in k (topics project) \<and> map_of (nattrib n) ''href'' = Some (''topics/'' @ k)"
      by (auto simp: dict_in_keys)
  qed
  with inv p show ?thesis by simp
qed


theorem references_resolve_witness:
  "\<exists>project st.
      convert_many (video_registry demo_env demo_config) None ''2026-01-01'' demo_files
        (Some (Path True [''r''])) = Inr project \<and>
      ditamap_root project = Some st \<and>
      keys (topics project) = [''a.dita'', ''a-2.dita''] \<and>
      reference_targets st = [Some ''topics/a.dita'', Some ''topics/a-2.dita'']"
proof -
  obtain project where
    r: "convert_many (video_registry demo_env demo_config) None ''2026-01-01'' demo_files
          (Some (Path True [''r''])) = Inr project"
    and k: "keys (topics project) = [''a.dita'', ''a-2.dita'']"
    by (rule demo_run_folder)
  from references_resolve [OF r demo_wellformed] obtain st where
    "ditamap_root project = Some st"
    "reference_targets st = map (\<lambda>k. Some (''topics/'' @ k)) (keys (topics project))"
    by blast
  with r k show ?thesis by simp
qed


section \<open>Flat mode\<close>

text \<open>
  Claim C8.  In a successful run without a root folder in which every conversion result
  has a topic, the children of the root of the map are reference nodes, one per accepted
  file in input order, each labelled with the stem of its file; there is no folder node
  among them.
\<close>

theorem flat_children:
  assumes "convert_many reg plugin_id today files None = Inr project"
    and "\<forall>(f, ctx) \<in> set (conversions reg files). topics ctx \<noteq> []"
  shows "\<exists>st. ditamap_root project = Some st \<and> st \<noteq> [] \<and> ntag (st ! 0) = ''map'' \<and>
           map (\<lambda>i. (ntag (st ! i), navtitle_of st i)) (nchildren (st ! 0)) =
             map (\<lambda>f. (''topicref'', Some (path_stem f))) (accepted reg files)"
proof -
  from assms(1) obtain s' where
    m: "merge_all None (initial_state plugin_id today) (conversions reg files) = Inr s'"
    and acc: "map fst (conversions reg files) = accepted reg files"
    and p: "project = (combined s')\<lparr>ditamap_root := Some (map_el s')\<rparr>"
    by (rule convert_many_Inr)
  define Inv where "Inv = (\<lambda>(s :: loop_state) (done :: (path \<times> xml dita_context) list).
      map_el s \<noteq> [] \<and> ntag (map_el s ! 0) = ''map'' \<and>
      list_all2 (\<lambda>i c. ref_at (map_el s) i (path_stem (fst c))) (nchildren (map_el s ! 0)) done)"
  have i0: "Inv (initial_state plugin_id today) []"
    by (simp add: Inv_def initial_state_def new_node_def)
  have "Inv s' ([] @ conversions reg files)"
    using m i0
  proof (rule merge_all_induct)
    fix s f ctx s1 and "done" :: "(path \<times> xml dita_context) list"
    assume i: "Inv s done" and mem: "(f, ctx) \<in> set (conversions reg files)"
      and r: "merge_result None s f ctx = Inr s1"
    from mem assms(2) have ne: "topics ctx \<noteq> []" by blast
    from r ne obtain href st cache parent where
      tp: "target_parent None f (map_el s) (folder_nodes s) = Inr (st, cache, parent)"
      and e: "map_el s1 = append_topicref st parent href
                       (snd (merge_topics (topics ctx) (topics (combined s), []))) f"
      by (rule merge_result_attach)
    from tp have st: "st = map_el s" "parent = 0" by (simp_all add: target_parent_flat)
    obtain target where e1: "map_el s1 = add_child (map_el s) 0 @
        ref_nodes (length (map_el s)) target (path_stem f)"
      using e st by (simp add: append_topicref_eq)
    from i have n0: "map_el s \<noteq> []" and tg: "ntag (map_el s ! 0) = ''map''"
      and la: "list_all2 (\<lambda>i c. ref_at (map_el s) i (path_stem (fst c))) (nchildren (map_el s ! 0)) done"
      by (simp_all add: Inv_def)
    from root_after_append [OF n0, of "ref_nodes (length (map_el s)) target (path_stem f)"]
    have r1: "map_el s1 \<noteq> []" "ntag (map_el s1 ! 0) = ''map''"
      "nchildren (map_el s1 ! 0) = nchildren (map_el s ! 0) @ [length (map_el s)]"
      using tg by (simp_all add: e1)
    have old: "list_all2 (\<lambda>i c. ref_at (map_el s1) i (path_stem (fst c))) (nchildren (map_el s ! 0)) done"
      using la unfolding e1 by (rule list_all2_mono) (rule ref_at_grow)
    have new: "ref_at (map_el s1) (length (map_el s)) (path_stem f)"
      unfolding e1 using n0 by (rule ref_at_new)
    from old new have "list_all2 (\<lambda>i c. ref_at (map_el s1) i (path_stem (fst c)))
        (nchildren (map_el s1 ! 0)) (done @ [(f, ctx)])"
      unfolding r1(3) by (intro list_all2_appendI) simp_all
    with r1 show "Inv s1 (done @ [(f, ctx)])" by (simp add: Inv_def)
  qed
  then have n0: "map_el s' \<noteq> []" and tg: "ntag (map_el s' ! 0) = ''map''"
    and la: "list_all2 (\<lambda>i c. ref_at (map_el s') i (path_stem (fst c)))
               (nchildren (map_el s' ! 0)) (conversions reg files)"
    by (simp_all add: Inv_def)
  from la have "list_all2 (\<lambda>i c. (ntag (map_el s' ! i), navtitle_of (map_el s') i) =
                    (''topicref'', Some (path_stem (fst c))))
                  (nchildren (map_el s' ! 0)) (conversions reg files)"
    by (rule list_all2_mono) (simp add: ref_at_label)
  then have "map (\<lambda>i. (ntag (map_el s' ! i), navtitle_of (map_el s') i)) (nchildren (map_el s' ! 0)) =
             map (\<lambda>c. (''topicref'', Some (path_stem (fst c)))) (conversions reg files)"
    by (induction rule: list_all2_induct) simp_all
  also have "\<dots> = map (\<lambda>f. (''topicref'', Some (path_stem f))) (map fst (conversions reg files))"
    by (simp add: comp_def)
  finally show ?thesis using n0 tg acc by (simp add: p)
qed

theorem flat_children_witness:
  "\<exists>project st.
      convert_many (video_registry demo_env demo_config) None ''2026-01-01'' demo_files None = Inr project \<and>
      ditamap_root project = Some st \<and>
      map (\<lambda>i. (ntag (st ! i), navtitle_of st i)) (nchildren (st ! 0)) =
        [(''topicref'', Some ''a''), (''topicref'', Some ''a'')] \<and>
      accepted (video_registry demo_env demo_config) demo_files =
        [Path True [''r'', ''a.mp4''], Path True [''r'', ''sub'', ''a.mp4'']]"
proof -
  obtain project where
    r: "convert_many (video_registry demo_env demo_config) None ''2026-01-01'' demo_files None = Inr project"
    by (rule demo_run)
  from flat_children [OF r demo_topics_nonempty] obtain st where
    "ditamap_root project = Some st"
    "map (\<lambda>i. (ntag (st ! i), navtitle_of st i)) (nchildren (st ! 0)) =
       map (\<lambda>f. (''topicref'', Some (path_stem f)))
         (accepted (video_registry demo_env demo_config) demo_files)"
    by blast
  moreover have "map (\<lambda>f. (''topicref'', Some (path_stem f)))
         (accepted (video_registry demo_env demo_config) demo_files) =
        [(''topicref'', Some ''a''), (''topicref'', Some ''a'')]"
    unfolding demo_accepted by (simp add: path_stem_def path_name_def rfind_def)
  ultimately show ?thesis using r demo_accepted by simp
qed


section \<open>Conversion failures\<close>

text \<open>
  Claim C4.  Let the video handler accept the file \<open>bad\<close> of a batch and let its
  conversion raise \<open>cause\<close>.  Then the run returns an error and no project, and when the
  files before \<open>bad\<close> went through, the error is the exception of \<open>convert_to_dita\<close>, whose
  message names the path of \<open>bad\<close> and the cause.
\<close>

theorem conversion_failure_aborts:
  assumes "can_handle ev (Some bad)"
    and "validate_file_exists ev bad = None"
    and "convert_body ev cfg bad batch_settings = Inl cause"
    and "bad \<in> set files"
  shows "(\<exists>e. convert_many (video_registry ev cfg) plugin_id today files root = Inl e) \<and>
         (\<forall>pre post s.
            files = pre @ bad # post \<and>
            convert_loop (video_registry ev cfg) root (initial_state plugin_id today) pre = Inr s \<longrightarrow>
              convert_many (video_registry ev cfg) plugin_id today files root =
                Inl (Exn ''Exception''
                       (''Failed to convert video '' @ path_str bad @ '': '' @ exn_msg cause)))"
proof -
  let ?reg = "video_registry ev cfg"
  let ?err = "Exn ''Exception'' (''Failed to convert video '' @ path_str bad @ '': '' @ exn_msg cause)"
  have step: "process_file ?reg root s bad = Inl ?err" if "settings_ok s" for s
    using that assms(1-3)
    by (simp add: process_file_def video_registry_def convert_to_dita_def settings_ok_def)
  have first: "convert_many ?reg plugin_id today files root = Inl ?err"
    if "files = pre @ bad # post"
      and "convert_loop ?reg root (initial_state plugin_id today) pre = Inr s" for pre post s
  proof -
    from settings_ok_loop [OF settings_ok_initial that(2)] have "settings_ok s" .
    from step [OF this] that show ?thesis
      by (simp add: convert_many_def convert_loop_append)
  qed
  have "\<exists>e. convert_many ?reg plugin_id today files root = Inl e"
  proof -
    from assms(4) obtain pre post where f: "files = pre @ bad # post"
      by (auto dest: split_list)
    show ?thesis
    proof (cases "convert_loop ?reg root (initial_state plugin_id today) pre")
      case (Inl e)
      with f show ?thesis by (simp add: convert_many_def convert_loop_append)
    next
      case (Inr s)
      from first [OF f Inr] show ?thesis by blast
    qed
  qed
  with first show ?thesis by blast
qed

theorem conversion_failure_aborts_witness:
  "can_handle demo_env (Some (Path True [''r'', ''bad.mp4''])) \<and>
   convert_body demo_env demo_config (Path True [''r'', ''bad.mp4'']) batch_settings =
     Inl (Exn ''ValueError'' ''Unsupported or corrupted video file: /r/bad.mp4'') \<and>
   convert_many (video_registry demo_env demo_config) None ''2026-01-01'' failing_files None =
     Inl (Exn ''Exception''
            ''Failed to convert video /r/bad.mp4: Unsupported or corrupted video file: /r/bad.mp4'')"
proof -
  let ?bad = "Path True [''r'', ''bad.mp4'']"
  have a: "can_handle demo_env (Some ?bad)" by code_simp
  have b: "validate_file_exists demo_env ?bad = None" by (simp add: demo_env_def)
  have c: "convert_body demo_env demo_config ?bad batch_settings =
             Inl (Exn ''ValueError'' ''Unsupported or corrupted video file: /r/bad.mp4'')"
    by code_simp
  have d: "?bad \<in> set failing_files" by (simp add: failing_files_def)
  obtain s where s: "convert_loop (video_registry demo_env demo_config) None
      (initial_state None ''2026-01-01'') [Path True [''r'', ''a.mp4'']] = Inr s"
  proof -
    have "case convert_loop (video_registry demo_env demo_config) None
      (initial_state None ''2026-01-01'') [Path True [''r'', ''a.mp4'']] of Inl e \<Rightarrow> False | Inr s \<Rightarrow> True"
      by code_simp
    with that show ?thesis by (auto split: sum.splits)
  qed
  have f: "failing_files = [Path True [''r'', ''a.mp4'']] @ ?bad # [Path True [''r'', ''c.mp4'']]"
    by (simp add: failing_files_def)
  from conversion_failure_aborts [OF a b c d, of None "''2026-01-01''" None, THEN conjunct2,
      rule_format, of "[Path True [''r'', ''a.mp4'']]" "[Path True [''r'', ''c.mp4'']]" s] f s
  have "convert_many (video_registry demo_env demo_config) None ''2026-01-01'' failing_files None =
     Inl (Exn ''Exception''
            (''Failed to convert video '' @ path_str ?bad @ '': '' @
             exn_msg (Exn ''ValueError'' ''Unsupported or corrupted video file: /r/bad.mp4'')))"
    by blast
  moreover have "path_str ?bad = ''/r/bad.mp4''" by (simp add: path_str_def)
  ultimately show ?thesis using a c by simp
qed

section \<open>Lemmas about folder nodes\<close>

lemma join_snoc: "xs \<noteq> [] \<Longrightarrow> join sep (xs @ [y]) = join sep xs @ sep @ y"
  by (induction sep xs rule: join.induct) auto

lemma prefix_keys_longer:
  "acc \<noteq> [] \<Longrightarrow> k \<in> set (prefix_keys acc ps) \<Longrightarrow> length (join ''/'' acc) < length k"
proof (induction ps arbitrary: acc)
  case Nil
  then show ?case by simp
next
  case (Cons p rest)
  have l: "length (join ''/'' acc) < length (join ''/'' (acc @ [p]))"
    using Cons.prems(1) by (simp add: join_snoc)
  from Cons.prems(2) have "k = join ''/'' (acc @ [p]) \<or> k \<in> set (prefix_keys (acc @ [p]) rest)"
    by simp
  then show ?case
  proof
    assume "k = join ''/'' (acc @ [p])"
    with l show ?thesis by simp
  next
    assume "k \<in> set (prefix_keys (acc @ [p]) rest)"
    from Cons.IH [OF _ this] have "length (join ''/'' (acc @ [p])) < length k" by simp
    with l show ?thesis by simp
  qed
qed

lemma prefix_keys_fresh: "join ''/'' (acc @ [p]) \<notin> set (prefix_keys (acc @ [p]) rest)"
  using prefix_keys_longer [of "acc @ [p]" "join ''/'' (acc @ [p])" rest] by auto

lemma prefix_keys_distinct: "distinct (prefix_keys acc ps)"
  by (induction ps arbitrary: acc) (simp_all add: prefix_keys_fresh)

lemma prefix_keys_last:
  "ps \<noteq> [] \<Longrightarrow> k \<in> set (prefix_keys acc ps) \<Longrightarrow> k \<noteq> join ''/'' (acc @ ps) \<Longrightarrow>
   length k < length (join ''/'' (acc @ ps))"
proof (induction ps arbitrary: acc)
  case Nil
  then show ?case by simp
next
  case (Cons p rest)
  show ?case
  proof (cases "rest = []")
    case True
    with Cons.prems show ?thesis by simp
  next
    case False
    have last_in: "join ''/'' ((acc @ [p]) @ rest) \<in> set (prefix_keys (acc @ [p]) rest)"
      using False
    proof (induction rest arbitrary: acc p)
      case Nil
      then show ?case by simp
    next
      case (Cons q qs)
      show ?case
      proof (cases "qs = []")
        case True
        then show ?thesis by simp
      next
        case False
        from Cons.IH [OF False, of "acc @ [p]" q] show ?thesis by simp
      qed
    qed
    from Cons.prems(2) have "k = join ''/'' (acc @ [p]) \<or> k \<in> set (prefix_keys (acc @ [p]) rest)"
      by simp
    then show ?thesis
    proof
      assume k: "k = join ''/'' (acc @ [p])"
      from prefix_keys_longer [OF _ last_in] have
        "length (join ''/'' (acc @ [p])) < length (join ''/'' ((acc @ [p]) @ rest))" by simp
      with k show ?thesis by simp
    next
      assume "k \<in> set (prefix_keys (acc @ [p]) rest)"
      from Cons.IH [OF False this] Cons.prems(3) show ?thesis by simp
    qed
  qed
qed

subsection \<open>Lengths of joined and split strings\<close>

lemma join_length: "length (join ''/'' xs) = total xs + (length xs - 1)"
  by (induction "''/''" xs rule: join.induct) (auto simp: total_def)

lemma split_char_nonempty: "split_char c s \<noteq> []"
  by (induction s) (auto split: list.splits)

lemma split_char_total: "total (split_char c s) + length (split_char c s) = Suc (length s)"
proof (induction s)
  case Nil
  then show ?case by (simp add: total_def)
next
  case (Cons x xs)
  obtain w ws where w: "split_char c xs = w # ws"
    using split_char_nonempty [of c xs] by (cases "split_char c xs") auto
  with Cons show ?case by (auto simp: total_def)
qed

lemma total_filter: "total (filter (\<lambda>p. p \<noteq> []) xs) = total xs"
  by (induction xs) (auto simp: total_def)

lemma segments_length: "length (join ''/'' (segments rel_key)) \<le> length rel_key"
proof -
  let ?xs = "split_char CHR ''/'' rel_key"
  have "length (join ''/'' (segments rel_key)) = total ?xs + (length (filter (\<lambda>p. p \<noteq> []) ?xs) - 1)"
    by (simp add: segments_def join_length total_filter)
  also have "\<dots> \<le> total ?xs + (length ?xs - 1)"
    using length_filter_le [of "\<lambda>p. p \<noteq> []" ?xs] by (simp add: diff_le_mono)
  also have "\<dots> = length rel_key"
    using split_char_total [of "CHR ''/''" rel_key] split_char_nonempty [of "CHR ''/''" rel_key]
    by (cases ?xs) auto
  finally show ?thesis .
qed

lemma rel_key_is_last_key:
  assumes "rel_key \<in> set (prefix_keys [] (segments rel_key))"
  shows "segments rel_key \<noteq> [] \<and> rel_key = join ''/'' (segments rel_key)"
proof -
  from assms have ne: "segments rel_key \<noteq> []" by auto
  have "rel_key = join ''/'' (segments rel_key)"
  proof (rule ccontr)
    assume "rel_key \<noteq> join ''/'' (segments rel_key)"
    with prefix_keys_last [OF ne, of rel_key "[]"] assms
    have "length rel_key < length (join ''/'' (segments rel_key))" by simp
    with segments_length [of rel_key] show False by simp
  qed
  with ne show ?thesis by simp
qed

lemma map_of_None_dict_in: "(map_of d k = None) = (\<not> dict_in k d)"
  by (simp add: map_of_eq_None_iff dict_in_def)

lemma heads_add_child:
  "length (filter (\<lambda>n. ntag n = t) (add_child st p)) = length (filter (\<lambda>n. ntag n = t) st)"
proof -
  have "\<And>xs. length (filter (\<lambda>n. ntag n = t) xs) = length (filter (\<lambda>p. fst p = t) (tagged xs))"
    by (simp add: tagged_def filter_map comp_def)
  then show ?thesis by (simp add: tagged_add_child)
qed

lemma heads_head_nodes:
  "length (filter (\<lambda>n. ntag n = ''topichead'') (head_nodes k label)) = 1"
  by (simp add: head_nodes_def)

lemma ensure_loop_effect:
  "ensure_loop st cache acc parent ps = (st', cache', n) \<Longrightarrow>
   (\<exists>ext. cache' = cache @ ext \<and>
      keys ext = filter (\<lambda>k. \<not> dict_in k cache) (prefix_keys acc ps)) \<and>
   length (filter (\<lambda>n. ntag n = ''topichead'') st') =
     length (filter (\<lambda>n. ntag n = ''topichead'') st) +
     length (filter (\<lambda>k. \<not> dict_in k cache) (prefix_keys acc ps))"
proof (induction ps arbitrary: st cache acc parent)
  case Nil
  then show ?case by (simp add: keys_def)
next
  case (Cons p rest)
  let ?key = "join ''/'' (acc @ [p])"
  show ?case
  proof (cases "map_of cache ?key")
    case (Some k)
    then have d: "dict_in ?key cache" using map_of_None_dict_in [of cache ?key] by simp
    from Cons.prems have "ensure_loop st cache (acc @ [p]) k rest = (st', cache', n)"
      by (simp only: ensure_loop_Some [OF Some])
    from Cons.IH [OF this] d show ?thesis by simp
  next
    case None
    then have d: "\<not> dict_in ?key cache" by (simp add: map_of_None_dict_in)
    let ?cache1 = "cache @ [(?key, length st)]"
    let ?st1 = "add_child st parent @ head_nodes (length st) p"
    have u: "AList.update ?key (length st) cache = ?cache1" using d by (rule update_fresh)
    from Cons.prems have "ensure_loop ?st1 ?cache1 (acc @ [p]) (length st) rest = (st', cache', n)"
      by (simp only: ensure_loop_None [OF None] u)
    from Cons.IH [OF this] obtain ext where
      e: "cache' = ?cache1 @ ext"
         "keys ext = filter (\<lambda>k. \<not> dict_in k ?cache1) (prefix_keys (acc @ [p]) rest)"
      and h: "length (filter (\<lambda>n. ntag n = ''topichead'') st') =
                length (filter (\<lambda>n. ntag n = ''topichead'') ?st1) +
                length (filter (\<lambda>k. \<not> dict_in k ?cache1) (prefix_keys (acc @ [p]) rest))"
      by blast
    have f: "filter (\<lambda>k. \<not> dict_in k ?cache1) (prefix_keys (acc @ [p]) rest) =
             filter (\<lambda>k. \<not> dict_in k cache) (prefix_keys (acc @ [p]) rest)"
    proof (rule filter_cong [OF refl])
      fix k assume "k \<in> set (prefix_keys (acc @ [p]) rest)"
      with prefix_keys_fresh [of acc p rest] have "k \<noteq> ?key" by auto
      then show "(\<not> dict_in k ?cache1) = (\<not> dict_in k cache)" by (auto simp: dict_in_def)
    qed
    have "cache' = cache @ ((?key, length st) # ext)" using e(1) by simp
    moreover have "keys ((?key, length st) # ext) =
        filter (\<lambda>k. \<not> dict_in k cache) (prefix_keys acc (p # rest))"
      using e(2) f d by (simp add: keys_def)
    moreover have "length (filter (\<lambda>n. ntag n = ''topichead'') st') =
        length (filter (\<lambda>n. ntag n = ''topichead'') st) +
        length (filter (\<lambda>k. \<not> dict_in k cache) (prefix_keys acc (p # rest)))"
      using h f d by (simp add: heads_add_child heads_head_nodes)
    ultimately show ?thesis by blast
  qed
qed

lemma ensure_loop_keeps:
  assumes "ensure_loop st cache acc parent ps = (st', cache', n)" and "map_of cache k = Some v"
  shows "map_of cache' k = Some v"
proof -
  from ensure_loop_effect [OF assms(1)] obtain ext where "cache' = cache @ ext" by blast
  with assms(2) show ?thesis by (simp add: map_add_Some_iff)
qed

lemma ensure_loop_last:
  "ps \<noteq> [] \<Longrightarrow> ensure_loop st cache acc parent ps = (st', cache', n) \<Longrightarrow>
   map_of cache' (join ''/'' (acc @ ps)) = Some n"
proof (induction ps arbitrary: st cache acc parent)
  case Nil
  then show ?case by simp
next
  case (Cons p rest)
  let ?key = "join ''/'' (acc @ [p])"
  show ?case
  proof (cases "map_of cache ?key")
    case (Some k)
    from Cons.prems(2) have r: "ensure_loop st cache (acc @ [p]) k rest = (st', cache', n)"
      by (simp only: ensure_loop_Some [OF Some])
    show ?thesis
    proof (cases "rest = []")
      case True
      with r Some show ?thesis by simp
    next
      case False
      from Cons.IH [OF False r] show ?thesis by simp
    qed
  next
    case None
    let ?cache1 = "AList.update ?key (length st) cache"
    let ?st1 = "add_child st parent @ head_nodes (length st) p"
    from Cons.prems(2) have r: "ensure_loop ?st1 ?cache1 (acc @ [p]) (length st) rest = (st', cache', n)"
      by (simp only: ensure_loop_None [OF None])
    show ?thesis
    proof (cases "rest = []")
      case True
      with r have "?cache1 = cache'" "length st = n" by auto
      then have "map_of cache' ?key = map_of ?cache1 ?key" "n = length st" by simp_all
      then show ?thesis using True by (simp add: update_conv')
    next
      case False
      from Cons.IH [OF False r] show ?thesis by simp
    qed
  qed
qed

lemma ensure_loop_again:
  "ensure_loop st cache acc parent ps = (st', cache', n) \<Longrightarrow> ps \<noteq> [] \<or> parent' = parent \<Longrightarrow>
   ensure_loop st2 cache' acc parent' ps = (st2, cache', n)"
proof (induction ps arbitrary: st cache acc parent parent')
  case Nil
  then show ?case by simp
next
  case (Cons p rest)
  let ?key = "join ''/'' (acc @ [p])"
  show ?case
  proof (cases "map_of cache ?key")
    case (Some k)
    from Cons.prems(1) have r: "ensure_loop st cache (acc @ [p]) k rest = (st', cache', n)"
      by (simp only: ensure_loop_Some [OF Some])
    from ensure_loop_keeps [OF r Some] have c: "map_of cache' ?key = Some k" .
    from Cons.IH [OF r, of k] have "ensure_loop st2 cache' (acc @ [p]) k rest = (st2, cache', n)"
      by simp
    then show ?thesis by (simp only: ensure_loop_Some [OF c])
  next
    case None
    let ?cache1 = "AList.update ?key (length st) cache"
    let ?st1 = "add_child st parent @ head_nodes (length st) p"
    from Cons.prems(1) have r: "ensure_loop ?st1 ?cache1 (acc @ [p]) (length st) rest = (st', cache', n)"
      by (simp only: ensure_loop_None [OF None])
    have "map_of ?cache1 ?key = Some (length st)" by (simp add: update_conv')
    from ensure_loop_keeps [OF r this] have c: "map_of cache' ?key = Some (length st)" .
    from Cons.IH [OF r, of "length st"]
    have "ensure_loop st2 cache' (acc @ [p]) (length st) rest = (st2, cache', n)" by simp
    then show ?thesis by (simp only: ensure_loop_Some [OF c])
  qed
qed


section \<open>Folder nodes are created once\<close>

text \<open>
  Claim C6.  Let a call of \<open>ensure_folder_nodes\<close> on any store and cache return the node
  \<open>n\<close>.  Resolving the same path again on the resulting store and cache returns the same
  node and changes neither store nor cache.  Entries of the cache are never overwritten.
  The keys looked up for a path, its prefixes, are distinct; the call adds to the cache
  exactly the prefixes that were absent, in order, and the store gains exactly one
  \<^verbatim>\<open>topichead\<close> node for each of them (none at all when the path itself was cached).  In
  the loop, a prefix found in the cache is reused as the parent and leaves store and cache
  unchanged; for an absent prefix one \<^verbatim>\<open>topichead\<close> labelled with the part is created as
  last child of the current parent, stored under the prefix, and becomes the parent.
\<close>

theorem folder_nodes_memoized:
  assumes "ensure_folder_nodes st root cache rel_key = (st', cache', n)"
  shows "ensure_folder_nodes st' root cache' rel_key = (st', cache', n) \<and>
         (\<forall>k v. map_of cache k = Some v \<longrightarrow> map_of cache' k = Some v) \<and>
         distinct (prefix_keys [] (segments rel_key)) \<and>
         keys cache' = keys cache @
           (if dict_in rel_key cache then []
            else filter (\<lambda>k. \<not> dict_in k cache) (prefix_keys [] (segments rel_key))) \<and>
         length (filter (\<lambda>n. ntag n = ''topichead'') st') =
           length (filter (\<lambda>n. ntag n = ''topichead'') st) +
           (if dict_in rel_key cache then 0
            else length (filter (\<lambda>k. \<not> dict_in k cache) (prefix_keys [] (segments rel_key)))) \<and>
         (\<forall>s c path_accum parent part rest k.
            map_of c (join ''/'' (path_accum @ [part])) = Some k \<longrightarrow>
              ensure_loop s c path_accum parent (part # rest) =
                ensure_loop s c (path_accum @ [part]) k rest) \<and>
         (\<forall>s c path_accum parent part rest.
            map_of c (join ''/'' (path_accum @ [part])) = None \<longrightarrow>
              ensure_loop s c path_accum parent (part # rest) =
                ensure_loop (add_child s parent @ head_nodes (length s) part)
                  (AList.update (join ''/'' (path_accum @ [part])) (length s) c)
                  (path_accum @ [part]) (length s) rest)"
proof -
  have steps: "(\<forall>s c path_accum parent part rest k.
            map_of c (join ''/'' (path_accum @ [part])) = Some k \<longrightarrow>
              ensure_loop s c path_accum parent (part # rest) =
                ensure_loop s c (path_accum @ [part]) k rest) \<and>
         (\<forall>s c path_accum parent part rest.
            map_of c (join ''/'' (path_accum @ [part])) = None \<longrightarrow>
              ensure_loop s c path_accum parent (part # rest) =
                ensure_loop (add_child s parent @ head_nodes (length s) part)
                  (AList.update (join ''/'' (path_accum @ [part])) (length s) c)
                  (path_accum @ [part]) (length s) rest)"
    using ensure_loop_Some ensure_loop_None by blast
  have dist: "distinct (prefix_keys [] (segments rel_key))" by (rule prefix_keys_distinct)
  show ?thesis
  proof (cases "map_of cache rel_key")
    case (Some v)
    then have d: "dict_in rel_key cache" using map_of_None_dict_in [of cache rel_key] by simp
    from assms Some have "st' = st" "cache' = cache" "n = v"
      by (simp_all add: ensure_folder_nodes_def)
    with Some d steps dist show ?thesis by (simp add: ensure_folder_nodes_def)
  next
    case None
    then have d: "\<not> dict_in rel_key cache" by (simp add: map_of_None_dict_in)
    from assms None have r: "ensure_loop st cache [] root (segments rel_key) = (st', cache', n)"
      by (simp add: ensure_folder_nodes_def)
    from ensure_loop_effect [OF r] obtain ext where
      e: "cache' = cache @ ext"
         "keys ext = filter (\<lambda>k. \<not> dict_in k cache) (prefix_keys [] (segments rel_key))"
      and h: "length (filter (\<lambda>n. ntag n = ''topichead'') st') =
                length (filter (\<lambda>n. ntag n = ''topichead'') st) +
                length (filter (\<lambda>k. \<not> dict_in k cache) (prefix_keys [] (segments rel_key)))"
      by blast
    have again: "ensure_folder_nodes st' root cache' rel_key = (st', cache', n)"
    proof (cases "map_of cache' rel_key")
      case None
      with ensure_loop_again [OF r, of root st'] show ?thesis
        by (simp add: ensure_folder_nodes_def)
    next
      case (Some v)
      then have "dict_in rel_key cache'" using map_of_None_dict_in [of cache' rel_key] by simp
      with d e have "rel_key \<in> set (prefix_keys [] (segments rel_key))"
        by (auto simp: dict_in_def keys_def)
      from rel_key_is_last_key [OF this] have
        ne: "segments rel_key \<noteq> []" and j: "rel_key = join ''/'' (segments rel_key)" by simp_all
      from ensure_loop_last [OF ne r] j have "map_of cache' rel_key = Some n" by simp
      then show ?thesis by (simp add: ensure_folder_nodes_def)
    qed
    have keeps: "\<forall>k v. map_of cache k = Some v \<longrightarrow> map_of cache' k = Some v"
      using ensure_loop_keeps [OF r] by blast
    have ks: "keys cache' = keys cache @
           (if dict_in rel_key cache then []
            else filter (\<lambda>k. \<not> dict_in k cache) (prefix_keys [] (segments rel_key)))"
      using e d by (simp add: keys_def)
    from again keeps dist ks h d steps show ?thesis by simp
  qed
qed

theorem folder_nodes_memoized_witness:
  "\<exists>st' cache' n.
     ensure_folder_nodes [new_node ''map''] 0 [] ''ch1/s'' = (st', cache', n) \<and>
     keys cache' = [''ch1'', ''ch1/s''] \<and> n = 4 \<and>
     length (filter (\<lambda>n. ntag n = ''topichead'') st') = 2 \<and>
     ensure_folder_nodes st' 0 cache' ''ch1/s'' = (st', cache', n)"
proof -
  obtain st' cache' n where
    r: "ensure_folder_nodes [new_node ''map''] 0 [] ''ch1/s'' = (st', cache', n)"
    by (cases "ensure_folder_nodes [new_node ''map''] 0 [] ''ch1/s''")
  have v: "snd (snd (ensure_folder_nodes [new_node ''map''] 0 [] ''ch1/s'')) = 4"
    by code_simp
  have p: "filter (\<lambda>k. \<not> dict_in k ([] :: nat dict)) (prefix_keys [] (segments ''ch1/s'')) =
             [''ch1'', ''ch1/s'']"
    by code_simp
  have h0: "length (filter (\<lambda>n. ntag n = ''topichead'') [new_node ''map'']) = 0"
    by (simp add: new_node_def)
  have d: "\<not> dict_in ''ch1/s'' ([] :: nat dict)" by (simp add: dict_in_def)
  from folder_nodes_memoized [OF r] d p h0
  have "ensure_folder_nodes st' 0 cache' ''ch1/s'' = (st', cache', n)"
    "keys cache' = [''ch1'', ''ch1/s'']"
    "length (filter (\<lambda>n. ntag n = ''topichead'') st') = 2"
    by (simp_all add: keys_def)
  moreover from r v have "n = 4" by simp
  ultimately show ?thesis using r by blast
qed

section \<open>The video handler returns well-formed results\<close>

text \<open>
  In every environment whose tables are those of \<open>tables_ok\<close>, a context returned by
  \<open>convert_to_dita\<close> has exactly one topic, named by a topic identifier without \<^verbatim>\<open>/\<close>, and
  its map refers to that topic.  The hypotheses on the conversion results made above
  therefore hold in every batch that is converted by the video handler.
\<close>

lemma strip_subset: "set (strip cs s) \<subseteq> set s"
proof -
  have "set (strip cs s) \<subseteq> set (dropWhile (\<lambda>c. c \<in> set cs) s)"
    unfolding strip_def using set_dropWhileD [of _ "\<lambda>c. c \<in> set cs" "rev (dropWhile (\<lambda>c. c \<in> set cs) s)"]
    by auto
  also have "\<dots> \<subseteq> set s" using set_dropWhileD [of _ "\<lambda>c. c \<in> set cs" s] by auto
  finally show ?thesis .
qed

lemma isalnum_not_slash:
  assumes "tables_ok u" and "str_isalnum u c"
  shows "c \<noteq> CHR ''/''"
proof
  assume "c = CHR ''/''"
  moreover have "ascii_char CHR ''/''" by (simp add: ascii_char_def)
  moreover have "\<not> ascii_alnum CHR ''/''"
    by (simp add: ascii_alnum_def ascii_letter_def ascii_lowercase_def ascii_uppercase_def
        digits_def)
  ultimately show False using tables_okD(2) [OF assms(1), of "CHR ''/''"] assms(2) by simp
qed

lemma generate_topic_id_no_slash:
  assumes "tables_ok u" and "generate_topic_id u fname = Inr tid"
  shows "CHR ''/'' \<notin> set tid"
proof -
  define t where "t = topic_candidate u fname"
  from assms(2) obtain h rest where c: "t = h # rest"
    unfolding generate_topic_id_def Let_def t_def by (auto split: list.splits)
  define t1 where "t1 = (if str_isalpha u h then h # rest else ''video-'' @ h # rest)"
  define t2 where "t2 = (if length t1 > 50 then take 50 t1 else t1)"
  have "generate_topic_id u fname = Inr (strip ''-'' t2)"
    using c [unfolded t_def] t1_def t2_def by (rule generate_topic_id_Cons)
  with assms(2) have tid: "tid = strip ''-'' t2" by simp
  have "set t \<subseteq> {c. str_isalnum u c} \<union> {CHR ''-''}"
    unfolding t_def using topic_candidate_set [of u fname] by auto
  then have "CHR ''/'' \<notin> set t" using isalnum_not_slash [OF assms(1)] by auto
  then have "CHR ''/'' \<notin> set t1" by (auto simp: t1_def c)
  then have "CHR ''/'' \<notin> set t2" by (auto simp: t2_def dest: in_set_takeD)
  with strip_subset [of "''-''" t2] show ?thesis unfolding tid by auto
qed

lemma basename_topics:
  assumes "CHR ''/'' \<notin> set x"
  shows "basename (''topics/'' @ x) = x"
proof -
  have "rev (''topics/'' @ x) = rev x @ ''/scipot''" by simp
  moreover have "takeWhile (\<lambda>c. c \<noteq> CHR ''/'') (rev x @ ''/scipot'') = rev x"
  proof -
    have "\<And>c. c \<in> set (rev x) \<Longrightarrow> c \<noteq> CHR ''/''" using assms by auto
    then have "takeWhile (\<lambda>c. c \<noteq> CHR ''/'') (rev x @ ''/scipot'') =
        rev x @ takeWhile (\<lambda>c. c \<noteq> CHR ''/'') ''/scipot''"
      by (rule takeWhile_append2)
    then show ?thesis by simp
  qed
  ultimately have "length (takeWhile (\<lambda>c. c \<noteq> CHR ''/'') (rev (''topics/'' @ x))) = length x"
    by (simp only: length_rev)
  then have "rfind (''topics/'' @ x) CHR ''/'' = 6" by (simp add: rfind_def)
  then show ?thesis by (simp add: basename_def)
qed

lemma create_ditamap_href:
  "(case find_topicref (create_ditamap md today topic_filename vi) of
      None \<Rightarrow> None | Some tref \<Rightarrow> map_of (attrib tref) ''href'') = Some (''topics/'' @ topic_filename)"
  by (simp add: create_ditamap_def Let_def find_topicref_def dict_in_def)

lemma convert_to_dita_wellformed:
  assumes "tables_ok (tables ev)" and "convert_to_dita ev cfg f md = Inr ctx"
  shows "wellformed_result ctx"
proof -
  from assms(2) have b: "convert_body ev cfg f md = Inr ctx"
    by (auto simp: convert_to_dita_def split: option.splits sum.splits)
  then obtain vi cx where
    c: "create_dita_context ev cfg md f vi = Inr cx"
    and x: "ctx = cx\<lparr>topics := map (\<lambda>(fname, topic_el).
                        (fname, retitle (path_stem (parse_path (filename vi))) topic_el))
                        (topics cx)\<rparr>"
    by (auto simp: convert_body_def split: if_splits sum.splits)
  from c obtain tid el where
    g: "generate_topic_id (tables ev) (filename vi) = Inr tid"
    and t: "topics cx = [(tid @ ''.dita'', el)]"
    and m: "ditamap_root cx = Some (create_ditamap md (today_utc ev) (tid @ ''.dita'') vi)"
    by (auto simp: create_dita_context_def Let_def split: sum.splits)
  from generate_topic_id_no_slash [OF assms(1) g] have ns: "CHR ''/'' \<notin> set (tid @ ''.dita'')" by simp
  have p: "pick_href ctx = Some (''topics/'' @ tid @ ''.dita'')"
    using create_ditamap_href [of md "today_utc ev" "tid @ ''.dita''" vi]
    by (simp add: pick_href_def x m Let_def)
  have "topics ctx = [(tid @ ''.dita'', retitle (path_stem (parse_path (filename vi))) el)]"
    by (simp add: x t)
  with p basename_topics [OF ns] show ?thesis by (simp add: wellformed_result_def)
qed

lemma video_results_wellformed:
  assumes "tables_ok (tables ev)"
  shows "\<forall>(f, ctx) \<in> set (conversions (video_registry ev cfg) files). wellformed_result ctx"
proof -
  have "\<And>f ctx. (f, ctx) \<in> set (conversions (video_registry ev cfg) files) \<Longrightarrow> wellformed_result ctx"
  proof -
    fix f ctx assume "(f, ctx) \<in> set (conversions (video_registry ev cfg) files)"
    then have "convert_to_dita ev cfg f batch_settings = Inr ctx"
      by (auto simp: conversions_def video_registry_def split: if_splits option.splits sum.splits)
    with assms show "wellformed_result ctx" by (rule convert_to_dita_wellformed)
  qed
  then show ?thesis by blast
qed

end
